theory Spec2Isabelle
  imports Main "HOL-Library.Word"
begin

unbundle bit_operations_syntax

section \<open>Common data: bytes, machine words, errors\<close>

type_synonym byte = "8 word"
type_synonym ushort = "16 word"
type_synonym uint = "32 word"
type_synonym ulong = "64 word"

text \<open>
  Every exception class the modelled code throws is a constructor; \<open>AssertionFailure\<close>
  is a failed \<open>CEXASSERT\<close>; \<open>OutOfRange\<close> stands for an access outside a
  \<open>std::vector\<close>, \<open>DivisionByZero\<close> for a remainder by zero and \<open>NullPointer\<close>
  for a call through a null pointer (all undefined behaviour in the C++; the model stops
  there).
\<close>

datatype error =
    CryptoCipherModeException
  | CryptoSymmetricCipherException
  | CryptoDigestException
  | CryptoProcessingException
  | AssertionFailure
  | OutOfRange
  | DivisionByZero
  | NullPointer

definition ebind :: "error + 'a \<Rightarrow> ('a \<Rightarrow> error + 'b) \<Rightarrow> error + 'b" where
  "ebind m f = (case m of Inl e \<Rightarrow> Inl e | Inr x \<Rightarrow> f x)"

text \<open>
  Modelled from the spec: the macro \<open>CEXASSERT(condition, message)\<close> is declared in a
  header that is not part of the sources at hand. Sections 4.D and 7 of the specification
  list "transform before init" among the reported errors, so a failed assertion is the
  error \<open>AssertionFailure\<close> and the call does nothing else.
\<close>

definition CEXASSERT :: "bool \<Rightarrow> (error + 'a) \<Rightarrow> error + 'a" where
  "CEXASSERT condition rest = (if condition then rest else Inl AssertionFailure)"

text \<open>
  Modelled from the spec: \<open>ParallelOptions\<close> (ParallelOptions.h is missing). Only the
  values the modelled functions read are kept.
\<close>

record ParallelOptions =
  IsParallel :: bool
  ParallelBlockSize :: nat
  ParallelMinimumSize :: nat
  ParallelMaximumSize :: nat
  ParallelMaxDegree :: nat
  ProcessorCount :: nat

text \<open>
  Modelled from the spec: \<open>MemUtils::Clear\<close>, \<open>MemUtils::Copy\<close> (MemUtils.h is
  missing): \<open>Clear v off n\<close> zeroes \<open>n\<close> elements of \<open>v\<close> from \<open>off\<close>,
  \<open>Copy src soff dst doff n\<close> copies \<open>n\<close> elements. Both are memset/memcpy
  wrappers; a range outside the vectors is \<open>OutOfRange\<close>.
\<close>

definition Clear :: "byte list \<Rightarrow> nat \<Rightarrow> nat \<Rightarrow> error + byte list" where
  "Clear v off n =
     (if off + n \<le> length v then Inr (take off v @ replicate n 0 @ drop (off + n) v)
      else Inl OutOfRange)"

definition Copy :: "'a list \<Rightarrow> nat \<Rightarrow> 'a list \<Rightarrow> nat \<Rightarrow> nat \<Rightarrow> error + 'a list" where
  "Copy src soff dst doff n =
     (if soff + n \<le> length src \<and> doff + n \<le> length dst
      then Inr (take doff dst @ take n (drop soff src) @ drop (doff + n) dst)
      else Inl OutOfRange)"

section \<open>BlakeB512 (BlakeB512.h)\<close>

datatype Digests = Digests_BlakeB512 | Digests_BlakeBP512 | Digests_Keccak512

definition BlakeB512_Name :: "bool \<Rightarrow> string" where
  "BlakeB512_Name m_isParallel =
     (if m_isParallel then ''BlakeBP512'' else ''BlakeBP512'')"

definition BlakeB512_Enumeral :: "bool \<Rightarrow> Digests" where
  "BlakeB512_Enumeral m_isParallel =
     (if m_isParallel then Digests_BlakeBP512 else Digests_BlakeB512)"

section \<open>SymmetricKey (SymmetricKey.cpp)\<close>

record SymmetricKeySize =
  KeySize :: nat
  NonceSize :: nat
  InfoSize :: nat

record SymmetricKey =
  m_info :: "byte list"
  m_isDestroyed :: bool
  m_key :: "byte list"
  m_keySizes :: SymmetricKeySize
  m_nonce :: "byte list"

definition SymmetricKey_ctor0 :: SymmetricKey where
  "SymmetricKey_ctor0 =
     \<lparr>m_info = [], m_isDestroyed = False, m_key = [],
      m_keySizes = \<lparr>KeySize = 0, NonceSize = 0, InfoSize = 0\<rparr>, m_nonce = []\<rparr>"

definition SymmetricKey_ctor2 :: "byte list \<Rightarrow> byte list \<Rightarrow> error + SymmetricKey" where
  "SymmetricKey_ctor2 Key Nonce =
     (if length Key = 0 \<and> length Nonce = 0 then Inl CryptoProcessingException
      else Inr \<lparr>m_info = [], m_isDestroyed = False, m_key = Key,
        m_keySizes = \<lparr>KeySize = length Key, NonceSize = length Nonce, InfoSize = 0\<rparr>,
        m_nonce = Nonce\<rparr>)"

definition SymmetricKey_ctor3 ::
  "byte list \<Rightarrow> byte list \<Rightarrow> byte list \<Rightarrow> error + SymmetricKey" where
  "SymmetricKey_ctor3 Key Nonce Info =
     (if length Key = 0 \<and> length Nonce = 0 \<and> length Info = 0
      then Inl CryptoProcessingException
      else Inr \<lparr>m_info = Info, m_isDestroyed = False, m_key = Key,
        m_keySizes =
          \<lparr>KeySize = length Key, NonceSize = length Nonce, InfoSize = length Info\<rparr>,
        m_nonce = Nonce\<rparr>)"

text \<open>
  Modelled from the spec: \<open>StreamWriter\<close>, \<open>StreamReader\<close> and \<open>MemoryStream\<close>
  (their sources are missing). Section 6 fixes the format: 16-bit little-endian length
  prefixes followed by the raw bytes. A writer is the bytes written so far; a reader is
  the stream and a position, and reading past the end is a \<open>CryptoProcessingException\<close>.
\<close>

definition StreamWriter_Write16 :: "byte list \<Rightarrow> ushort \<Rightarrow> byte list" where
  "StreamWriter_Write16 w v = w @ [ucast v, ucast (drop_bit 8 v)]"

definition StreamWriter_WriteBytes :: "byte list \<Rightarrow> byte list \<Rightarrow> nat \<Rightarrow> nat \<Rightarrow> byte list" where
  "StreamWriter_WriteBytes w v off n = w @ take n (drop off v)"

definition StreamReader_ReadInt16 :: "byte list \<times> nat \<Rightarrow> error + (ushort \<times> (byte list \<times> nat))" where
  "StreamReader_ReadInt16 r =
     (case r of (buf, pos) \<Rightarrow>
        if pos + 2 \<le> length buf
        then Inr (ucast (buf ! pos) OR push_bit 8 (ucast (buf ! (pos + 1))), (buf, pos + 2))
        else Inl CryptoProcessingException)"

definition StreamReader_ReadBytes ::
  "byte list \<times> nat \<Rightarrow> nat \<Rightarrow> error + (byte list \<times> (byte list \<times> nat))" where
  "StreamReader_ReadBytes r n =
     (case r of (buf, pos) \<Rightarrow>
        if pos + n \<le> length buf then Inr (take n (drop pos buf), (buf, pos + n))
        else Inl CryptoProcessingException)"

text \<open>
  \<open>Serialize\<close>: the three sizes are \<open>size_t\<close>; \<open>static_cast<ushort>\<close> keeps their low
  16 bits.
\<close>

definition SymmetricKey_Serialize :: "SymmetricKey \<Rightarrow> byte list" where
  "SymmetricKey_Serialize KeyObj =
     (let kLen = length (m_key KeyObj);
          nLen = length (m_nonce KeyObj);
          iLen = length (m_info KeyObj);
          w0 = StreamWriter_Write16 [] (of_nat kLen);
          w1 = StreamWriter_Write16 w0 (of_nat nLen);
          w2 = StreamWriter_Write16 w1 (of_nat iLen);
          w3 = (if kLen \<noteq> 0 then StreamWriter_WriteBytes w2 (m_key KeyObj) 0 kLen else w2);
          w4 = (if nLen \<noteq> 0 then StreamWriter_WriteBytes w3 (m_nonce KeyObj) 0 nLen else w3);
          w5 = (if iLen \<noteq> 0 then StreamWriter_WriteBytes w4 (m_info KeyObj) 0 iLen else w4)
      in w5)"

text \<open>
  \<open>DeSerialize\<close>: the three lengths are read into \<open>short\<close> variables, so each is a
  signed 16-bit value (\<open>sint\<close>) and a field is read only when its length is positive.
\<close>

definition SymmetricKey_DeSerialize :: "byte list \<Rightarrow> error + SymmetricKey" where
  "SymmetricKey_DeSerialize KeyStream =
     ebind (StreamReader_ReadInt16 (KeyStream, 0)) (\<lambda>(kLen, r1).
     ebind (StreamReader_ReadInt16 r1) (\<lambda>(nLen, r2).
     ebind (StreamReader_ReadInt16 r2) (\<lambda>(iLen, r3).
     ebind (if 0 < sint kLen then StreamReader_ReadBytes r3 (nat (sint kLen))
            else Inr ([], r3)) (\<lambda>(key, r4).
     ebind (if 0 < sint nLen then StreamReader_ReadBytes r4 (nat (sint nLen))
            else Inr ([], r4)) (\<lambda>(nonce, r5).
     ebind (if 0 < sint iLen then StreamReader_ReadBytes r5 (nat (sint iLen))
            else Inr ([], r5)) (\<lambda>(info, r6).
     SymmetricKey_ctor3 key nonce info))))))"

definition SymmetricKey_Equals :: "SymmetricKey \<Rightarrow> SymmetricKey \<Rightarrow> bool" where
  "SymmetricKey_Equals this Obj =
     (m_key Obj = m_key this \<and> m_nonce Obj = m_nonce this \<and> m_info Obj = m_info this)"

section \<open>Salsa20 (Salsa20.cpp)\<close>

record Salsa20 =
  m_ctrVector :: "uint list"
  m_dstCode :: "byte list"
  m_isDestroyedS :: bool
  m_isInitializedS :: bool
  m_legalKeySizesS :: "SymmetricKeySize list"
  m_legalRounds :: "nat list"
  m_parallelProfileS :: ParallelOptions
  m_rndCount :: nat
  m_wrkState :: "uint list"

definition string_bytes :: "string \<Rightarrow> byte list" where
  "string_bytes str = map (\<lambda>c. of_nat (of_char c)) str"

definition SIGMA_INFO :: "byte list" where
  "SIGMA_INFO = string_bytes ''expand 32-byte k''"

definition TAU_INFO :: "byte list" where
  "TAU_INFO = string_bytes ''expand 16-byte k''"

definition Salsa20_Scope :: "Salsa20 \<Rightarrow> Salsa20" where
  "Salsa20_Scope s =
     s\<lparr>m_legalKeySizesS :=
         [\<lparr>KeySize = 16, NonceSize = 8, InfoSize = 0\<rparr>,
          \<lparr>KeySize = 32, NonceSize = 8, InfoSize = 0\<rparr>],
       m_legalRounds := [8, 10, 12, 14, 16, 18, 20, 22, 24, 26, 28, 30]\<rparr>"

text \<open>
  Modelled from the spec: \<open>MIN_ROUNDS\<close> and \<open>MAX_ROUNDS\<close> are declared in Salsa20.h,
  which is missing; section 4.F and the constructor's message give 8 and 30. The initial
  \<open>ParallelOptions\<close> comes from a constructor that is missing too and is a parameter.
\<close>

definition Salsa20_ctor :: "ParallelOptions \<Rightarrow> nat \<Rightarrow> error + Salsa20" where
  "Salsa20_ctor profile Rounds =
     (if Rounds = 0 \<or> Rounds mod 2 \<noteq> 0 then Inl CryptoSymmetricCipherException
      else if Rounds < 8 \<or> Rounds > 30 then Inl CryptoSymmetricCipherException
      else Inr (Salsa20_Scope
        \<lparr>m_ctrVector = replicate 2 0, m_dstCode = [], m_isDestroyedS = False,
         m_isInitializedS = False, m_legalKeySizesS = [], m_legalRounds = [],
         m_parallelProfileS = profile, m_rndCount = Rounds, m_wrkState = replicate 14 0\<rparr>))"

definition Salsa20_Reset :: "Salsa20 \<Rightarrow> error + Salsa20" where
  "Salsa20_Reset s =
     (if length (m_ctrVector s) < 2 then Inl OutOfRange
      else Inr (s\<lparr>m_ctrVector := (m_ctrVector s)[0 := 0, 1 := 0]\<rparr>))"

text \<open>
  Modelled from the spec: \<open>IntUtils::LeBytesTo32\<close> (IntUtils.h is missing) reads four
  bytes at an offset as a little-endian 32-bit word (section 4.F: little-endian byte
  order); \<open>None\<close> when the four bytes are not all inside the vector.
\<close>

definition LeBytesTo32 :: "byte list \<Rightarrow> nat \<Rightarrow> uint option" where
  "LeBytesTo32 Input InOffset =
     (if InOffset + 4 \<le> length Input
      then Some (ucast (Input ! InOffset)
                 OR push_bit 8 (ucast (Input ! (InOffset + 1)))
                 OR push_bit 16 (ucast (Input ! (InOffset + 2)))
                 OR push_bit 24 (ucast (Input ! (InOffset + 3))))
      else None)"

text \<open>
  \<open>Expand\<close> assigns the fourteen words of \<open>m_wrkState\<close> in order; the list below gives,
  for each index 0..13, the vector and offset the word is read from.
\<close>

definition Salsa20_Expand :: "Salsa20 \<Rightarrow> byte list \<Rightarrow> byte list \<Rightarrow> error + Salsa20" where
  "Salsa20_Expand s Key Iv =
     (let d = m_dstCode s;
          srcs = (if length Key = 32
                  then [(d, 0), (Key, 0), (Key, 4), (Key, 8), (Key, 12), (d, 4), (Iv, 0),
                        (Iv, 4), (d, 8), (Key, 16), (Key, 20), (Key, 24), (Key, 28), (d, 12)]
                  else [(d, 0), (Key, 0), (Key, 4), (Key, 8), (Key, 12), (d, 4), (Iv, 0),
                        (Iv, 4), (d, 8), (Key, 0), (Key, 4), (Key, 8), (Key, 12), (d, 12)])
      in if length (m_wrkState s) < 14 then Inl OutOfRange
         else case those (map (\<lambda>(v, off). LeBytesTo32 v off) srcs) of
                None \<Rightarrow> Inl OutOfRange
              | Some ws \<Rightarrow> Inr (s\<lparr>m_wrkState := ws @ drop 14 (m_wrkState s)\<rparr>))"

text \<open>
  \<open>Initialize\<close>. The two parallel-profile tests are written as C++ parses them
  (\<open>&&\<close> binds tighter than \<open>||\<close>); the remainder by \<open>ParallelMinimumSize\<close> is only
  evaluated when \<open>IsParallel()\<close> holds, and a zero divisor there is \<open>DivisionByZero\<close>.
\<close>

definition Salsa20_Initialize :: "Salsa20 \<Rightarrow> SymmetricKey \<Rightarrow> error + Salsa20" where
  "Salsa20_Initialize s0 KeyParams =
     (let s = Salsa20_Scope s0; po = m_parallelProfileS s in
      if length (m_nonce KeyParams) \<noteq> 8 then Inl CryptoSymmetricCipherException
      else if length (m_key KeyParams) \<noteq> 16 \<and> length (m_key KeyParams) \<noteq> 32
        then Inl CryptoSymmetricCipherException
      else if (IsParallel po \<and> ParallelBlockSize po < ParallelMinimumSize po)
              \<or> ParallelBlockSize po > ParallelMaximumSize po
        then Inl CryptoSymmetricCipherException
      else if IsParallel po \<and> ParallelMinimumSize po = 0 then Inl DivisionByZero
      else if IsParallel po \<and> ParallelBlockSize po mod ParallelMinimumSize po \<noteq> 0
        then Inl CryptoSymmetricCipherException
      else
        let s1 = (if length (m_info KeyParams) \<noteq> 0 then s\<lparr>m_dstCode := m_info KeyParams\<rparr>
                  else if length (m_key KeyParams) = 32 then s\<lparr>m_dstCode := SIGMA_INFO\<rparr>
                  else s\<lparr>m_dstCode := TAU_INFO\<rparr>)
        in ebind (Salsa20_Reset s1) (\<lambda>s2.
           ebind (Salsa20_Expand s2 (m_key KeyParams) (m_nonce KeyParams)) (\<lambda>s3.
           Inr (s3\<lparr>m_isInitializedS := True\<rparr>))))"

text \<open>
  Modelled from the spec: \<open>ParallelOptions::SetMaxDegree\<close> is missing; it is the
  parameter \<open>setMaxDegree\<close> of the three \<open>ParallelMaxDegree\<close> setters.
\<close>

definition Salsa20_ParallelMaxDegree ::
  "(ParallelOptions \<Rightarrow> nat \<Rightarrow> ParallelOptions) \<Rightarrow> Salsa20 \<Rightarrow> nat \<Rightarrow> error + Salsa20" where
  "Salsa20_ParallelMaxDegree setMaxDegree s Degree =
     (if Degree = 0 then Inl CryptoSymmetricCipherException
      else if Degree mod 2 \<noteq> 0 then Inl CryptoSymmetricCipherException
      else if Degree > ProcessorCount (m_parallelProfileS s)
        then Inl CryptoSymmetricCipherException
      else Inr (s\<lparr>m_parallelProfileS := setMaxDegree (m_parallelProfileS s) Degree\<rparr>))"

section \<open>Keccak512 (Keccak512.h, Keccak512.cpp)\<close>

record Keccak512State =
  State_H :: "ulong list"
  State_T :: ulong

definition MAX_ULL :: ulong where
  "MAX_ULL = 0xFFFFFFFFFFFFFFFF"

definition Keccak512State_Reset :: "Keccak512State \<Rightarrow> error + Keccak512State" where
  "Keccak512State_Reset st =
     (let h = replicate (length (State_H st)) 0 in
      if length h \<le> 20 then Inl OutOfRange
      else Inr \<lparr>State_H = h[1 := MAX_ULL, 2 := MAX_ULL, 8 := MAX_ULL, 12 := MAX_ULL,
                          17 := MAX_ULL, 20 := MAX_ULL],
                State_T = 0\<rparr>)"

definition Keccak512State_ctor :: "error + Keccak512State" where
  "Keccak512State_ctor = Keccak512State_Reset \<lparr>State_H = replicate 25 0, State_T = 0\<rparr>"

text \<open>
  Modelled from the spec: \<open>KeccakParams\<close> (KeccakParams.h is missing) holds the tree
  parameters of section 3; the code at hand writes \<open>NodeOffset()\<close> and reads
  \<open>FanOut()\<close> and \<open>ToBytes()\<close>.
\<close>

record KeccakParams =
  DigestLen :: nat
  KeyLen :: nat
  FanOut :: nat
  Depth :: nat
  LeafLen :: nat
  NodeOffset :: uint
  NodeDepth :: nat
  InnerLen :: nat
  ThreadCount :: nat

text \<open>
  Modelled from the spec: the collaborators of the digest whose sources are missing are
  parameters, collected in one record: the permutation \<open>Keccak::Permute(Input, InOffset,
  Size, State)\<close> (it returns the new state vector), \<open>KeccakParams::ToBytes\<close> and
  \<open>ParallelOptions::SetMaxDegree\<close>.
\<close>

record keccak_ext =
  Permute :: "byte list \<Rightarrow> nat \<Rightarrow> nat \<Rightarrow> ulong list \<Rightarrow> ulong list"
  ToBytes :: "KeccakParams \<Rightarrow> byte list"
  SetMaxDegree :: "ParallelOptions \<Rightarrow> nat \<Rightarrow> ParallelOptions"

record Keccak512 =
  m_treeParams :: KeccakParams
  m_dgtState :: "Keccak512State list"
  m_isDestroyedK :: bool
  m_msgBuffer :: "byte list"
  m_msgLength :: nat
  m_parallelProfile :: ParallelOptions

definition Keccak512_Compress ::
  "keccak_ext \<Rightarrow> byte list \<Rightarrow> nat \<Rightarrow> Keccak512State \<Rightarrow> Keccak512State" where
  "Keccak512_Compress ext Input InOffset State =
     State\<lparr>State_H := Permute ext Input InOffset 72 (State_H State)\<rparr>"

text \<open>
  The loop of \<open>Reset\<close> over the leaf states, by index; \<open>static_cast<uint>(i)\<close> is
  \<open>of_nat i\<close>.
\<close>

fun Keccak512_Reset_loop ::
  "keccak_ext \<Rightarrow> bool \<Rightarrow> nat list \<Rightarrow> KeccakParams \<Rightarrow> Keccak512State list
   \<Rightarrow> error + (KeccakParams \<times> Keccak512State list)" where
  "Keccak512_Reset_loop ext par [] p ds = Inr (p, ds)"
| "Keccak512_Reset_loop ext par (i # rest) p ds =
     (if i \<ge> length ds then Inl OutOfRange
      else ebind (Keccak512State_Reset (ds ! i)) (\<lambda>st.
        if par
        then let p' = p\<lparr>NodeOffset := of_nat i\<rparr>
             in Keccak512_Reset_loop ext par rest p'
                  (ds[i := Keccak512_Compress ext (ToBytes ext p') 0 st])
        else Keccak512_Reset_loop ext par rest p (ds[i := st])))"

definition Keccak512_Reset :: "keccak_ext \<Rightarrow> Keccak512 \<Rightarrow> error + Keccak512" where
  "Keccak512_Reset ext s =
     ebind (Clear (m_msgBuffer s) 0 (length (m_msgBuffer s))) (\<lambda>buf.
     ebind (Keccak512_Reset_loop ext (IsParallel (m_parallelProfile s))
              [0..<length (m_dgtState s)] (m_treeParams s) (m_dgtState s)) (\<lambda>(p, ds).
     Inr (s\<lparr>m_msgBuffer := buf, m_msgLength := 0, m_treeParams := p, m_dgtState := ds\<rparr>)))"

definition Keccak512_ParallelMaxDegree ::
  "keccak_ext \<Rightarrow> Keccak512 \<Rightarrow> nat \<Rightarrow> error + Keccak512" where
  "Keccak512_ParallelMaxDegree ext s Degree =
     (if Degree = 0 then Inl CryptoDigestException
      else if Degree > 254 then Inl CryptoDigestException
      else if Degree mod 2 \<noteq> 0 then Inl CryptoDigestException
      else Keccak512_Reset ext
             (s\<lparr>m_parallelProfile := SetMaxDegree ext (m_parallelProfile s) Degree\<rparr>))"

section \<open>GCM (GCM.h, GCM.cpp)\<close>

subsection \<open>Helpers from IntUtils and MemUtils\<close>

text \<open>
  Modelled from the spec: the helpers below stand for \<open>IntUtils::BeBytesTo64\<close>,
  \<open>IntUtils::BeIncrement8\<close>, \<open>IntUtils::Compare\<close>, \<open>MemUtils::XorBlock\<close> and
  \<open>MemUtils::COPY128\<close> (IntUtils.h and MemUtils.h are missing). Big-endian order and the
  increment by one are those of sections 4.C and 4.D; \<open>Compare a aoff b boff n\<close> tells
  whether the \<open>n\<close> elements of \<open>a\<close> from \<open>aoff\<close> equal those of \<open>b\<close> from \<open>boff\<close>;
  \<open>XorBlock src soff dst doff n\<close> xors \<open>n\<close> bytes of \<open>src\<close> into \<open>dst\<close>.
\<close>

definition buffer_slice :: "'a list \<Rightarrow> nat \<Rightarrow> nat \<Rightarrow> 'a list" where
  "buffer_slice v off n = take n (drop off v)"

definition buffer_write :: "'a list \<Rightarrow> nat \<Rightarrow> 'a list \<Rightarrow> 'a list" where
  "buffer_write v off xs = take off v @ xs @ drop (off + length xs) v"

definition BeBytesTo64 :: "byte list \<Rightarrow> nat \<Rightarrow> ulong" where
  "BeBytesTo64 Input InOffset =
     foldl (\<lambda>acc b. push_bit 8 acc OR ucast b) 0 (buffer_slice Input InOffset 8)"

fun LeIncrementBytes :: "byte list \<Rightarrow> byte list" where
  "LeIncrementBytes [] = []"
| "LeIncrementBytes (b # bs) = (if b + 1 = 0 then 0 # LeIncrementBytes bs else (b + 1) # bs)"

definition BeIncrement8 :: "byte list \<Rightarrow> byte list" where
  "BeIncrement8 Output = rev (LeIncrementBytes (rev Output))"

definition Compare :: "'a list \<Rightarrow> nat \<Rightarrow> 'a list \<Rightarrow> nat \<Rightarrow> nat \<Rightarrow> error + bool" where
  "Compare a aoff b boff n =
     (if aoff + n \<le> length a \<and> boff + n \<le> length b
      then Inr (buffer_slice a aoff n = buffer_slice b boff n)
      else Inl OutOfRange)"

definition XorBlock :: "byte list \<Rightarrow> nat \<Rightarrow> byte list \<Rightarrow> nat \<Rightarrow> nat \<Rightarrow> error + byte list" where
  "XorBlock src soff dst doff n =
     (if soff + n \<le> length src \<and> doff + n \<le> length dst
      then Inr (buffer_write dst doff
                  (map2 (XOR) (buffer_slice dst doff n) (buffer_slice src soff n)))
      else Inl OutOfRange)"

definition COPY128 :: "byte list \<Rightarrow> nat \<Rightarrow> byte list \<Rightarrow> nat \<Rightarrow> error + byte list" where
  "COPY128 src soff dst doff = Copy src soff dst doff 16"

definition vector_resize :: "byte list \<Rightarrow> nat \<Rightarrow> byte list" where
  "vector_resize v n = take n v @ replicate (n - length v) 0"

text \<open>
  \<open>size_t\<close> subtraction wraps around; sizes and offsets are below \<open>2 ^ 64\<close>.
\<close>

definition size_t_sub :: "nat \<Rightarrow> nat \<Rightarrow> nat" where
  "size_t_sub a b = (a + 2 ^ 64 - b) mod 2 ^ 64"

text \<open>
  Modelled from the spec: \<open>SymmetricKeySize::Contains\<close> (SymmetricKeySize.h is missing):
  the key length is one of the cipher's legal sizes (section 4.D).
\<close>

definition Contains :: "SymmetricKeySize list \<Rightarrow> nat \<Rightarrow> bool" where
  "Contains sizes n = (n \<in> set (map KeySize sizes))"

subsection \<open>The collaborators of the mode\<close>

text \<open>
  Modelled from the spec: the block cipher (\<open>IBlockCipher\<close>), the GHASH authenticator
  (GHASH.h) and \<open>ParallelOptions::SetMaxDegree\<close> are missing and are parameters.
  \<open>Engine_Transform key block\<close> is the block encryption \<open>E_K\<close>;
  \<open>Engine_LegalKeySizes\<close> its legal key sizes. The GHASH object is a value of an
  arbitrary type \<open>'h\<close>: \<open>GHASH_ctor\<close> builds it from the two 64-bit halves of the hash
  subkey; \<open>GHASH_Update\<close> and \<open>GHASH_ProcessSegment\<close> take the object, the \<open>Length\<close>
  bytes they are pointed at and the checksum, \<open>GHASH_FinalizeBlock\<close> the checksum and the
  two sizes, and each returns the object and the checksum as it leaves them (section 4.B).
\<close>

record 'h gcm_ext =
  Engine_Transform :: "byte list \<Rightarrow> byte list \<Rightarrow> byte list"
  Engine_LegalKeySizes :: "SymmetricKeySize list"
  GHASH_ctor :: "ulong list \<Rightarrow> 'h"
  GHASH_Update :: "'h \<Rightarrow> byte list \<Rightarrow> byte list \<Rightarrow> 'h \<times> byte list"
  GHASH_ProcessSegment :: "'h \<Rightarrow> byte list \<Rightarrow> byte list \<Rightarrow> 'h \<times> byte list"
  GHASH_FinalizeBlock :: "'h \<Rightarrow> byte list \<Rightarrow> nat \<Rightarrow> nat \<Rightarrow> 'h \<times> byte list"
  GHASH_Reset :: "'h \<Rightarrow> 'h"
  Profile_SetMaxDegree :: "ParallelOptions \<Rightarrow> nat \<Rightarrow> ParallelOptions"

text \<open>
  What the C++ types give for free: the cipher writes one 16-byte block, and GHASH works
  on the caller's checksum vector in place, so its length stays.
\<close>

definition collaborators_ok :: "'h gcm_ext \<Rightarrow> bool" where
  "collaborators_ok ext =
     ((\<forall>k b. length (Engine_Transform ext k b) = 16)
      \<and> (\<forall>h d c. length (snd (GHASH_Update ext h d c)) = length c)
      \<and> (\<forall>h d c. length (snd (GHASH_ProcessSegment ext h d c)) = length c)
      \<and> (\<forall>h c a m. length (snd (GHASH_FinalizeBlock ext h c a m)) = length c))"

subsection \<open>The counter driver\<close>

text \<open>
  Modelled from the spec: the counter mode \<open>CTR\<close> (CTR.h is missing), after section 4.C:
  a big-endian counter, \<open>out = in XOR E_K(counter)\<close> and \<open>counter++\<close> for each block; for
  a tail shorter than a block one more keystream block is generated and truncated. The
  parallel path gives the same bytes (section 8, vector 5) and is not modelled apart.
\<close>

record CTR =
  ctr_key :: "byte list"
  ctr_vector :: "byte list"
  ctr_isInitialized :: bool

definition CTR_ctor :: CTR where
  "CTR_ctor = \<lparr>ctr_key = [], ctr_vector = [], ctr_isInitialized = False\<rparr>"

definition CTR_Initialize :: "CTR \<Rightarrow> byte list \<Rightarrow> byte list \<Rightarrow> CTR" where
  "CTR_Initialize c Key Nonce = c\<lparr>ctr_key := Key, ctr_vector := Nonce, ctr_isInitialized := True\<rparr>"

definition CTR_Destroy :: "CTR \<Rightarrow> CTR" where
  "CTR_Destroy c = c\<lparr>ctr_key := [], ctr_vector := [], ctr_isInitialized := False\<rparr>"

fun CTR_Generate ::
  "(byte list \<Rightarrow> byte list \<Rightarrow> byte list) \<Rightarrow> byte list \<Rightarrow> byte list \<Rightarrow> nat
   \<Rightarrow> byte list \<times> byte list" where
  "CTR_Generate E key counter 0 = ([], counter)"
| "CTR_Generate E key counter (Suc n) =
     (case CTR_Generate E key (BeIncrement8 counter) n of
        (ks, counter') \<Rightarrow> (E key counter @ ks, counter'))"

definition CTR_Transform ::
  "(byte list \<Rightarrow> byte list \<Rightarrow> byte list) \<Rightarrow> CTR \<Rightarrow> byte list \<Rightarrow> CTR \<times> byte list" where
  "CTR_Transform E c input =
     (case CTR_Generate E (ctr_key c) (ctr_vector c) ((length input + 15) div 16) of
        (ks, counter') \<Rightarrow> (c\<lparr>ctr_vector := counter'\<rparr>, map2 (XOR) input ks))"

text \<open>
  The caller's vectors live in a store, so that \<open>Input\<close> and \<open>Output\<close> of a transform may
  be the same vector (in-place use).
\<close>

type_synonym store = "nat \<Rightarrow> byte list"

definition CTR_TransformAt ::
  "(byte list \<Rightarrow> byte list \<Rightarrow> byte list) \<Rightarrow> CTR \<Rightarrow> store \<Rightarrow> nat \<Rightarrow> nat \<Rightarrow> nat \<Rightarrow> nat \<Rightarrow> nat
   \<Rightarrow> error + (CTR \<times> store)" where
  "CTR_TransformAt E c st Input InOffset Output OutOffset Length =
     (if InOffset + Length \<le> length (st Input) \<and> OutOffset + Length \<le> length (st Output)
      then case CTR_Transform E c (buffer_slice (st Input) InOffset Length) of
             (c', bytes) \<Rightarrow> Inr (c', st(Output := buffer_write (st Output) OutOffset bytes))
      else Inl OutOfRange)"

subsection \<open>The mode\<close>

record 'h GCM =
  m_aadData :: "byte list"
  m_aadLoaded :: bool
  m_aadPreserve :: bool
  m_aadSize :: nat
  m_autoIncrement :: bool
  m_checkSum :: "byte list"
  m_cipherMode :: CTR
  m_destroyEngine :: bool
  m_gcmHash :: "'h option"
  m_gcmKey :: "byte list"
  m_gcmNonce :: "byte list"
  m_gcmVector :: "byte list"
  m_isDestroyedG :: bool
  m_isEncryption :: bool
  m_isFinalized :: bool
  m_isInitialized :: bool
  m_legalKeySizes :: "SymmetricKeySize list"
  m_msgSize :: nat
  m_msgTag :: "byte list"
  m_parallelProfileG :: ParallelOptions

definition with_gcmHash :: "'h GCM \<Rightarrow> ('h \<Rightarrow> error + 'a) \<Rightarrow> error + 'a" where
  "with_gcmHash g f = (case m_gcmHash g of None \<Rightarrow> Inl NullPointer | Some h \<Rightarrow> f h)"

text \<open>
  \<open>Scope\<close>: the second statement only recalculates the profile inside the counter mode,
  which the model of the counter mode does not carry.
\<close>

definition GCM_Scope :: "'h gcm_ext \<Rightarrow> 'h GCM \<Rightarrow> 'h GCM" where
  "GCM_Scope ext g =
     (if length (m_legalKeySizes g) = 0 then g\<lparr>m_legalKeySizes := Engine_LegalKeySizes ext\<rparr>
      else g)"

text \<open>
  The constructor \<open>GCM(BlockCiphers CipherType)\<close>; the parallel profile it builds from the
  counter mode's is the parameter \<open>profile\<close>.
\<close>

definition GCM_ctor :: "'h gcm_ext \<Rightarrow> ParallelOptions \<Rightarrow> 'h GCM" where
  "GCM_ctor ext profile =
     GCM_Scope ext
       \<lparr>m_aadData = [], m_aadLoaded = False, m_aadPreserve = False, m_aadSize = 0,
        m_autoIncrement = False, m_checkSum = replicate 16 0, m_cipherMode = CTR_ctor,
        m_destroyEngine = True, m_gcmHash = None, m_gcmKey = [], m_gcmNonce = [],
        m_gcmVector = [], m_isDestroyedG = False, m_isEncryption = False,
        m_isFinalized = False, m_isInitialized = False, m_legalKeySizes = [],
        m_msgSize = 0, m_msgTag = replicate 16 0, m_parallelProfileG = profile\<rparr>"

text \<open>
  The part of \<open>Initialize\<close> that turns the nonce held in \<open>m_gcmVector\<close> into the initial
  counter block: \<open>resize(16)\<close> appends zero bytes.
\<close>

definition GCM_Initialize_vector :: "'h gcm_ext \<Rightarrow> 'h GCM \<Rightarrow> error + 'h GCM" where
  "GCM_Initialize_vector ext g =
     (if length (m_gcmVector g) = 12
      then Inr (g\<lparr>m_gcmVector := (vector_resize (m_gcmVector g) 16)[15 := 1]\<rparr>)
      else with_gcmHash g (\<lambda>h.
        let tmpN = replicate 16 0;
            (h1, tmpN1) = GHASH_ProcessSegment ext h
                            (buffer_slice (m_gcmVector g) 0 (length (m_gcmVector g))) tmpN;
            (h2, tmpN2) = GHASH_FinalizeBlock ext h1 tmpN1 0 (length (m_gcmVector g))
        in Inr (g\<lparr>m_gcmHash := Some h2, m_gcmVector := tmpN2\<rparr>)))"

text \<open>
  \<open>Initialize\<close>, in the order of the source: the checks; the branch on an empty key
  (\<open>GCM_Initialize_key\<close>: either the nonce-repeat guard of a re-initialization, or keying
  the cipher and building the GHASH object from \<open>E_K(0)\<close>); the initial counter block
  (\<open>GCM_Initialize_vector\<close> above); then keying the counter mode with that block and
  encrypting a zero block into \<open>m_gcmVector\<close> (\<open>GCM_Initialize_counter\<close>).
\<close>

definition GCM_Initialize_key :: "'h gcm_ext \<Rightarrow> 'h GCM \<Rightarrow> SymmetricKey \<Rightarrow> error + 'h GCM" where
  "GCM_Initialize_key ext g KeyParams =
     (if length (m_key KeyParams) = 0
      then (if m_nonce KeyParams = m_gcmNonce g then Inl CryptoSymmetricCipherException
            else if \<not> ctr_isInitialized (m_cipherMode g)
              then Inl CryptoSymmetricCipherException
            else Inr g)
      else (if \<not> Contains (m_legalKeySizes g) (length (m_key KeyParams))
              then Inl CryptoSymmetricCipherException
            else
              let tmpH = Engine_Transform ext (m_key KeyParams) (replicate 16 0);
                  gKey = [BeBytesTo64 tmpH 0, BeBytesTo64 tmpH 8]
              in Inr (g\<lparr>m_gcmHash := Some (GHASH_ctor ext gKey),
                        m_gcmKey := m_key KeyParams\<rparr>)))"

definition GCM_Initialize_counter :: "'h gcm_ext \<Rightarrow> 'h GCM \<Rightarrow> error + 'h GCM" where
  "GCM_Initialize_counter ext g2 =
     ebind (SymmetricKey_ctor2 (m_gcmKey g2) (m_gcmVector g2)) (\<lambda>kp.
     let c0 = CTR_Initialize (m_cipherMode g2) (m_key kp) (m_nonce kp);
         tmpN = replicate 16 0;
         (c1, bytes) = CTR_Transform (Engine_Transform ext) c0 (buffer_slice tmpN 0 16)
     in ebind (Copy bytes 0 (m_gcmVector g2) 0 16) (\<lambda>vec.
        let g3 = g2\<lparr>m_cipherMode := c1, m_gcmVector := vec\<rparr>;
            g4 = (if m_isFinalized g3
                  then g3\<lparr>m_msgTag := replicate (length (m_msgTag g3)) 0,
                          m_isFinalized := False\<rparr>
                  else g3)
        in Inr (g4\<lparr>m_isInitialized := True\<rparr>)))"

definition GCM_Initialize ::
  "'h gcm_ext \<Rightarrow> 'h GCM \<Rightarrow> bool \<Rightarrow> SymmetricKey \<Rightarrow> error + 'h GCM" where
  "GCM_Initialize ext g0 Encryption KeyParams =
     (let g = GCM_Scope ext g0; po = m_parallelProfileG g in
      if length (m_nonce KeyParams) < 8 then Inl CryptoSymmetricCipherException
      else if (IsParallel po \<and> ParallelBlockSize po < ParallelMinimumSize po)
              \<or> ParallelBlockSize po > ParallelMaximumSize po
        then Inl CryptoSymmetricCipherException
      else if IsParallel po \<and> ParallelMinimumSize po = 0 then Inl DivisionByZero
      else if IsParallel po \<and> ParallelBlockSize po mod ParallelMinimumSize po \<noteq> 0
        then Inl CryptoSymmetricCipherException
      else
        ebind (GCM_Initialize_key ext g KeyParams) (\<lambda>g1.
        ebind (GCM_Initialize_vector ext
                 (g1\<lparr>m_isEncryption := Encryption, m_gcmNonce := m_nonce KeyParams,
                     m_gcmVector := m_nonce KeyParams\<rparr>)) (\<lambda>g2.
        GCM_Initialize_counter ext g2)))"

definition GCM_ParallelMaxDegree :: "'h gcm_ext \<Rightarrow> 'h GCM \<Rightarrow> nat \<Rightarrow> error + 'h GCM" where
  "GCM_ParallelMaxDegree ext g Degree =
     (if Degree = 0 then Inl CryptoCipherModeException
      else if Degree mod 2 \<noteq> 0 then Inl CryptoCipherModeException
      else if Degree > ProcessorCount (m_parallelProfileG g)
        then Inl CryptoCipherModeException
      else Inr (g\<lparr>m_parallelProfileG :=
                    Profile_SetMaxDegree ext (m_parallelProfileG g) Degree\<rparr>))"

definition GCM_SetAssociatedData ::
  "'h gcm_ext \<Rightarrow> 'h GCM \<Rightarrow> byte list \<Rightarrow> nat \<Rightarrow> nat \<Rightarrow> error + 'h GCM" where
  "GCM_SetAssociatedData ext g Input Offset Length =
     (if \<not> m_isInitialized g then Inl CryptoSymmetricCipherException
      else if m_aadLoaded g then Inl CryptoSymmetricCipherException
      else ebind (Copy Input Offset (vector_resize (m_aadData g) Length) 0 Length) (\<lambda>aad.
           with_gcmHash g (\<lambda>h.
             let (h1, cs) = GHASH_ProcessSegment ext h (buffer_slice Input Offset Length)
                              (m_checkSum g)
             in Inr (g\<lparr>m_aadData := aad, m_gcmHash := Some h1, m_checkSum := cs,
                       m_aadSize := Length, m_aadLoaded := True\<rparr>))))"

definition GCM_Transform ::
  "'h gcm_ext \<Rightarrow> 'h GCM \<Rightarrow> store \<Rightarrow> nat \<Rightarrow> nat \<Rightarrow> nat \<Rightarrow> nat \<Rightarrow> nat
   \<Rightarrow> error + ('h GCM \<times> store)" where
  "GCM_Transform ext g st Input InOffset Output OutOffset Length =
     CEXASSERT (m_isInitialized g)
    (CEXASSERT (min (size_t_sub (length (st Input)) InOffset)
                    (size_t_sub (length (st Output)) OutOffset) \<ge> Length)
    (if m_isEncryption g
     then
       ebind (CTR_TransformAt (Engine_Transform ext) (m_cipherMode g) st
                Input InOffset Output OutOffset Length) (\<lambda>(c, st1).
       with_gcmHash g (\<lambda>h.
         let (h1, cs) = GHASH_Update ext h (buffer_slice (st1 Output) OutOffset Length)
                          (m_checkSum g)
         in Inr (g\<lparr>m_cipherMode := c, m_gcmHash := Some h1, m_checkSum := cs,
                   m_msgSize := (m_msgSize g + Length) mod 2 ^ 64\<rparr>, st1)))
     else
       with_gcmHash g (\<lambda>h.
         let (h1, cs) = GHASH_Update ext h (buffer_slice (st Input) InOffset Length)
                          (m_checkSum g)
         in ebind (CTR_TransformAt (Engine_Transform ext) (m_cipherMode g) st
                     Input InOffset Output OutOffset Length) (\<lambda>(c, st1).
            Inr (g\<lparr>m_cipherMode := c, m_gcmHash := Some h1, m_checkSum := cs,
                   m_msgSize := (m_msgSize g + Length) mod 2 ^ 64\<rparr>, st1)))))"

definition GCM_Decrypt128 ::
  "'h gcm_ext \<Rightarrow> 'h GCM \<Rightarrow> store \<Rightarrow> nat \<Rightarrow> nat \<Rightarrow> nat \<Rightarrow> nat \<Rightarrow> error + ('h GCM \<times> store)" where
  "GCM_Decrypt128 ext g st Input InOffset Output OutOffset =
     CEXASSERT (m_isInitialized g)
    (CEXASSERT (min (size_t_sub (length (st Input)) InOffset)
                    (size_t_sub (length (st Output)) OutOffset) \<ge> 16)
    (with_gcmHash g (\<lambda>h.
       let (h1, cs) = GHASH_Update ext h (buffer_slice (st Input) InOffset 16) (m_checkSum g)
       in ebind (CTR_TransformAt (Engine_Transform ext) (m_cipherMode g) st
                   Input InOffset Output OutOffset 16) (\<lambda>(c, st1).
          Inr (g\<lparr>m_cipherMode := c, m_gcmHash := Some h1, m_checkSum := cs,
                 m_msgSize := (m_msgSize g + 16) mod 2 ^ 64\<rparr>, st1)))))"

definition GCM_Encrypt128 ::
  "'h gcm_ext \<Rightarrow> 'h GCM \<Rightarrow> store \<Rightarrow> nat \<Rightarrow> nat \<Rightarrow> nat \<Rightarrow> nat \<Rightarrow> error + ('h GCM \<times> store)" where
  "GCM_Encrypt128 ext g st Input InOffset Output OutOffset =
     CEXASSERT (m_isInitialized g)
    (CEXASSERT (min (size_t_sub (length (st Input)) InOffset)
                    (size_t_sub (length (st Output)) OutOffset) \<ge> 16)
    (ebind (CTR_TransformAt (Engine_Transform ext) (m_cipherMode g) st
              Input InOffset Output OutOffset 16) (\<lambda>(c, st1).
     with_gcmHash g (\<lambda>h.
       let (h1, cs) = GHASH_Update ext h (buffer_slice (st1 Input) InOffset 16) (m_checkSum g)
       in Inr (g\<lparr>m_cipherMode := c, m_gcmHash := Some h1, m_checkSum := cs,
                 m_msgSize := (m_msgSize g + 16) mod 2 ^ 64\<rparr>, st1)))))"

definition GCM_Reset :: "'h gcm_ext \<Rightarrow> 'h GCM \<Rightarrow> error + 'h GCM" where
  "GCM_Reset ext g =
     ebind (if \<not> m_aadPreserve g
            then ebind (if m_aadSize g \<noteq> 0 then Clear (m_aadData g) 0 (length (m_aadData g))
                        else Inr (m_aadData g)) (\<lambda>aad.
                 Inr (g\<lparr>m_aadData := aad, m_aadLoaded := False, m_aadSize := 0\<rparr>))
            else Inr g) (\<lambda>g1.
     with_gcmHash g1 (\<lambda>h.
     ebind (Clear (m_gcmVector g1) 0 (length (m_gcmVector g1))) (\<lambda>vec.
     ebind (Clear (m_checkSum g1) 0 (length (m_checkSum g1))) (\<lambda>cs.
     Inr (g1\<lparr>m_gcmHash := Some (GHASH_Reset ext h), m_isInitialized := False,
              m_gcmVector := vec, m_checkSum := cs, m_msgSize := 0\<rparr>)))))"

definition GCM_CalculateMac :: "'h gcm_ext \<Rightarrow> 'h GCM \<Rightarrow> error + 'h GCM" where
  "GCM_CalculateMac ext g =
     with_gcmHash g (\<lambda>h.
     let (h1, cs) = GHASH_FinalizeBlock ext h (m_checkSum g) (m_aadSize g) (m_msgSize g) in
     ebind (XorBlock (m_gcmVector g) 0 cs 0 16) (\<lambda>cs1.
     ebind (COPY128 cs1 0 (m_msgTag g) 0) (\<lambda>tag.
     ebind (GCM_Reset ext (g\<lparr>m_gcmHash := Some h1, m_checkSum := cs1, m_msgTag := tag\<rparr>))
       (\<lambda>g1.
     ebind (if m_autoIncrement g1
            then
              let tmpN = BeIncrement8 (m_gcmNonce g1); zero = [] in
              ebind (SymmetricKey_ctor2 zero tmpN) (\<lambda>kp.
              ebind (GCM_Initialize ext g1 (m_isEncryption g1) kp) (\<lambda>g2.
              if m_aadPreserve g2
              then with_gcmHash g2 (\<lambda>h2.
                     let (h3, cs3) = GHASH_ProcessSegment ext h2
                            (buffer_slice (m_aadData g2) 0 (length (m_aadData g2)))
                            (m_checkSum g2)
                     in Inr (g2\<lparr>m_gcmHash := Some h3, m_checkSum := cs3\<rparr>))
              else Inr g2))
            else Inr g1) (\<lambda>g3.
     Inr (g3\<lparr>m_isFinalized := True\<rparr>))))))"

definition GCM_Finalize ::
  "'h gcm_ext \<Rightarrow> 'h GCM \<Rightarrow> byte list \<Rightarrow> nat \<Rightarrow> nat \<Rightarrow> error + ('h GCM \<times> byte list)" where
  "GCM_Finalize ext g Output Offset Length =
     (if \<not> m_isInitialized g then Inl CryptoCipherModeException
      else if Length < 12 \<or> Length > 16 then Inl CryptoCipherModeException
      else ebind (GCM_CalculateMac ext g) (\<lambda>g1.
           ebind (Copy (m_msgTag g1) 0 Output Offset Length) (\<lambda>out.
           Inr (g1, out))))"

definition GCM_Verify ::
  "'h gcm_ext \<Rightarrow> 'h GCM \<Rightarrow> byte list \<Rightarrow> nat \<Rightarrow> nat \<Rightarrow> error + ('h GCM \<times> bool)" where
  "GCM_Verify ext g Input Offset Length =
     (if m_isEncryption g then Inl CryptoCipherModeException
      else if \<not> m_isInitialized g \<and> \<not> m_isFinalized g then Inl CryptoCipherModeException
      else if Length < 12 \<or> Length > 16 then Inl CryptoCipherModeException
      else ebind (if \<not> m_isFinalized g then GCM_CalculateMac ext g else Inr g) (\<lambda>g1.
           ebind (Compare (m_msgTag g1) 0 Input Offset Length) (\<lambda>b.
           Inr (g1, b))))"

definition GCM_Tag :: "'h GCM \<Rightarrow> error + byte list" where
  "GCM_Tag g = (if \<not> m_isFinalized g then Inl CryptoCipherModeException else Inr (m_msgTag g))"

subsection \<open>Notions used by the theorems about the mode\<close>

text \<open>
  The parallel profile passes the three tests \<open>Initialize\<close> makes on it.
\<close>

definition profile_accepted :: "ParallelOptions \<Rightarrow> bool" where
  "profile_accepted po =
     (if IsParallel po
      then ParallelMinimumSize po \<le> ParallelBlockSize po
           \<and> ParallelBlockSize po \<le> ParallelMaximumSize po
           \<and> ParallelMinimumSize po \<noteq> 0
           \<and> ParallelBlockSize po mod ParallelMinimumSize po = 0
      else ParallelBlockSize po \<le> ParallelMaximumSize po)"

text \<open>
  The hash subkey and the initial counter block as the specification words them (section
  3): \<open>H = E_K(0^128)\<close>; \<open>J0\<close> is \<open>N || 0x00000001\<close> when \<open>|N| = 12\<close> and
  \<open>GHASH_H(N)\<close> otherwise, the latter closed by the length block (section 4.B).
  \<open>spec_J0\<close> also returns the GHASH object as the computation leaves it.
\<close>

definition spec_hash_subkey :: "'h gcm_ext \<Rightarrow> byte list \<Rightarrow> 'h" where
  "spec_hash_subkey ext key =
     (let H = Engine_Transform ext key (replicate 16 0)
      in GHASH_ctor ext [BeBytesTo64 H 0, BeBytesTo64 H 8])"

definition spec_J0 :: "'h gcm_ext \<Rightarrow> 'h \<Rightarrow> byte list \<Rightarrow> 'h \<times> byte list" where
  "spec_J0 ext h N =
     (if length N = 12 then (h, N @ [0, 0, 0, 1])
      else case GHASH_ProcessSegment ext h N (replicate 16 0) of
             (h1, x) \<Rightarrow> GHASH_FinalizeBlock ext h1 x 0 (length N))"

text \<open>
  The instance as a successful \<open>Initialize\<close> leaves it, given the GHASH object, the
  initial counter block \<open>J0\<close> and its encryption.
\<close>

definition GCM_initialized ::
  "'h GCM \<Rightarrow> bool \<Rightarrow> byte list \<Rightarrow> byte list \<Rightarrow> 'h \<Rightarrow> byte list \<Rightarrow> byte list \<Rightarrow> 'h GCM" where
  "GCM_initialized g Encryption key nonce hJ J0 EJ0 =
     g\<lparr>m_gcmHash := Some hJ, m_gcmKey := key, m_isEncryption := Encryption,
       m_gcmNonce := nonce, m_gcmVector := EJ0,
       m_cipherMode := \<lparr>ctr_key = key, ctr_vector = BeIncrement8 J0, ctr_isInitialized = True\<rparr>,
       m_msgTag := (if m_isFinalized g then replicate (length (m_msgTag g)) 0 else m_msgTag g),
       m_isFinalized := False, m_isInitialized := True\<rparr>"

text \<open>
  The instance as \<open>Reset\<close> leaves it, given the GHASH object it holds.
\<close>

definition GCM_reset_state :: "'h gcm_ext \<Rightarrow> 'h GCM \<Rightarrow> 'h \<Rightarrow> 'h GCM" where
  "GCM_reset_state ext g h =
     (if m_aadPreserve g then g
      else g\<lparr>m_aadData := (if m_aadSize g \<noteq> 0 then replicate (length (m_aadData g)) 0
                           else m_aadData g),
             m_aadLoaded := False, m_aadSize := 0\<rparr>)
     \<lparr>m_gcmHash := Some (GHASH_Reset ext h), m_isInitialized := False,
      m_gcmVector := replicate (length (m_gcmVector g)) 0,
      m_checkSum := replicate (length (m_checkSum g)) 0, m_msgSize := 0\<rparr>"

text \<open>
  The two sessions of the round-trip property of section 8, written after the usage
  examples of GCM.h: \<open>encrypt_k,n(p, a, t)\<close> is \<open>Initialize\<close>, \<open>SetAssociatedData\<close>,
  \<open>Transform\<close>, \<open>Finalize\<close>; \<open>decrypt_k,n(c, a, t)\<close> is \<open>Initialize\<close>,
  \<open>SetAssociatedData\<close>, \<open>Transform\<close>, \<open>Verify\<close>. The text sits in vector 0 of the
  store; the transform writes into vector 0 again (\<open>inplace\<close>) or into vector 1.
\<close>

definition spec_buffers :: "bool \<Rightarrow> byte list \<Rightarrow> store" where
  "spec_buffers inplace x =
     (\<lambda>_. [])(0 := x, 1 := (if inplace then [] else replicate (length x) 0))"

definition spec_output :: "bool \<Rightarrow> nat" where
  "spec_output inplace = (if inplace then 0 else 1)"

definition spec_encrypt ::
  "'h gcm_ext \<Rightarrow> 'h GCM \<Rightarrow> bool \<Rightarrow> byte list \<Rightarrow> byte list \<Rightarrow> byte list \<Rightarrow> byte list \<Rightarrow> nat
   \<Rightarrow> error + (byte list \<times> byte list)" where
  "spec_encrypt ext g inplace key nonce a p t =
     ebind (SymmetricKey_ctor2 key nonce) (\<lambda>kp.
     ebind (GCM_Initialize ext g True kp) (\<lambda>g1.
     ebind (GCM_SetAssociatedData ext g1 a 0 (length a)) (\<lambda>g2.
     ebind (GCM_Transform ext g2 (spec_buffers inplace p) 0 0 (spec_output inplace) 0 (length p))
       (\<lambda>(g3, st).
     ebind (GCM_Finalize ext g3 (replicate t 0) 0 t) (\<lambda>(g4, tag).
     Inr (buffer_slice (st (spec_output inplace)) 0 (length p), tag))))))"

definition spec_decrypt ::
  "'h gcm_ext \<Rightarrow> 'h GCM \<Rightarrow> bool \<Rightarrow> byte list \<Rightarrow> byte list \<Rightarrow> byte list \<Rightarrow> byte list
   \<Rightarrow> byte list \<Rightarrow> nat \<Rightarrow> error + (byte list \<times> bool)" where
  "spec_decrypt ext g inplace key nonce a c tag t =
     ebind (SymmetricKey_ctor2 key nonce) (\<lambda>kp.
     ebind (GCM_Initialize ext g False kp) (\<lambda>g1.
     ebind (GCM_SetAssociatedData ext g1 a 0 (length a)) (\<lambda>g2.
     ebind (GCM_Transform ext g2 (spec_buffers inplace c) 0 0 (spec_output inplace) 0 (length c))
       (\<lambda>(g3, st).
     ebind (GCM_Verify ext g3 tag 0 t) (\<lambda>(g4, verified).
     Inr (buffer_slice (st (spec_output inplace)) 0 (length c), verified))))))"

text \<open>
  A small instance of the collaborators and a sequential profile, at which the hypotheses
  of the theorems below are met.
\<close>

definition example_profile :: ParallelOptions where
  "example_profile =
     \<lparr>IsParallel = False, ParallelBlockSize = 64000, ParallelMinimumSize = 512,
      ParallelMaximumSize = 100000000, ParallelMaxDegree = 1, ProcessorCount = 1\<rparr>"

definition example_ext :: "nat gcm_ext" where
  "example_ext =
     \<lparr>Engine_Transform = (\<lambda>k b. replicate 16 0x5A),
      Engine_LegalKeySizes = [\<lparr>KeySize = 16, NonceSize = 16, InfoSize = 0\<rparr>,
                              \<lparr>KeySize = 32, NonceSize = 16, InfoSize = 0\<rparr>],
      GHASH_ctor = (\<lambda>k. 0),
      GHASH_Update = (\<lambda>h d c. (h + length d, c)),
      GHASH_ProcessSegment = (\<lambda>h d c. (h + length d, c)),
      GHASH_FinalizeBlock = (\<lambda>h c a m. (h, c)),
      GHASH_Reset = (\<lambda>h. 0),
      Profile_SetMaxDegree = (\<lambda>p n. p\<lparr>ParallelMaxDegree := n\<rparr>)\<rparr>"

text \<open>
  The calls a client can make on an instance other than \<open>Initialize\<close>. A call that throws
  leaves the instance and the vectors as it found them: in the states the theorem below
  is about, every exception comes from the checks at the entry of the call.
\<close>

datatype gcm_call =
    Call_SetAssociatedData "byte list" nat nat
  | Call_Transform nat nat nat nat nat
  | Call_EncryptBlock nat nat nat nat
  | Call_DecryptBlock nat nat nat nat
  | Call_Finalize nat nat nat
  | Call_Verify "byte list" nat nat
  | Call_ParallelMaxDegree nat
  | Call_AutoIncrement bool
  | Call_PreserveAD bool

fun GCM_call :: "'h gcm_ext \<Rightarrow> 'h GCM \<times> store \<Rightarrow> gcm_call \<Rightarrow> 'h GCM \<times> store" where
  "GCM_call ext (g, st) (Call_SetAssociatedData Input Offset Length) =
     (case GCM_SetAssociatedData ext g Input Offset Length of
        Inl e \<Rightarrow> (g, st) | Inr g' \<Rightarrow> (g', st))"
| "GCM_call ext (g, st) (Call_Transform Input InOffset Output OutOffset Length) =
     (case GCM_Transform ext g st Input InOffset Output OutOffset Length of
        Inl e \<Rightarrow> (g, st) | Inr r \<Rightarrow> r)"
| "GCM_call ext (g, st) (Call_EncryptBlock Input InOffset Output OutOffset) =
     (case GCM_Encrypt128 ext g st Input InOffset Output OutOffset of
        Inl e \<Rightarrow> (g, st) | Inr r \<Rightarrow> r)"
| "GCM_call ext (g, st) (Call_DecryptBlock Input InOffset Output OutOffset) =
     (case GCM_Decrypt128 ext g st Input InOffset Output OutOffset of
        Inl e \<Rightarrow> (g, st) | Inr r \<Rightarrow> r)"
| "GCM_call ext (g, st) (Call_Finalize Output Offset Length) =
     (case GCM_Finalize ext g (st Output) Offset Length of
        Inl e \<Rightarrow> (g, st) | Inr (g', out) \<Rightarrow> (g', st(Output := out)))"
| "GCM_call ext (g, st) (Call_Verify Input Offset Length) =
     (case GCM_Verify ext g Input Offset Length of
        Inl e \<Rightarrow> (g, st) | Inr (g', b) \<Rightarrow> (g', st))"
| "GCM_call ext (g, st) (Call_ParallelMaxDegree Degree) =
     (case GCM_ParallelMaxDegree ext g Degree of
        Inl e \<Rightarrow> (g, st) | Inr g' \<Rightarrow> (g', st))"
| "GCM_call ext (g, st) (Call_AutoIncrement b) = (g\<lparr>m_autoIncrement := b\<rparr>, st)"
| "GCM_call ext (g, st) (Call_PreserveAD b) = (g\<lparr>m_aadPreserve := b\<rparr>, st)"

text \<open>
  The state of an instance between calls: the tag and the checksum are 16-byte vectors and,
  while the instance is initialized, the GHASH object exists, \<open>m_gcmVector\<close> holds a
  block, the nonce has passed the length test, the counter mode is keyed and the parallel
  profile has passed the tests of \<open>Initialize\<close>.
\<close>

definition GCM_wellformed :: "'h GCM \<Rightarrow> bool" where
  "GCM_wellformed g =
     (length (m_msgTag g) = 16 \<and> length (m_checkSum g) = 16
      \<and> (m_isInitialized g \<longrightarrow>
            m_gcmHash g \<noteq> None \<and> length (m_gcmVector g) = 16
            \<and> 8 \<le> length (m_gcmNonce g) \<and> ctr_isInitialized (m_cipherMode g)
            \<and> profile_accepted (m_parallelProfileG g)))"


text \<open>
  The tag as the specification words it (section 4.D): \<open>E_K(J0) XOR X'\<close> with
  \<open>X' = GHASH.finalize(checksum, aad_size, msg_size)\<close>, computed from the checksum and
  the two sizes the instance holds; \<open>m_gcmVector\<close> holds \<open>E_K(J0)\<close>.
\<close>

definition spec_tag :: "'h gcm_ext \<Rightarrow> 'h GCM \<Rightarrow> byte list" where
  "spec_tag ext g =
     (case m_gcmHash g of
        None \<Rightarrow> []
      | Some h \<Rightarrow>
          map2 (XOR)
            (snd (GHASH_FinalizeBlock ext h (m_checkSum g) (m_aadSize g) (m_msgSize g)))
            (m_gcmVector g))"

text \<open>
  A second instance of the collaborators, whose block cipher returns the counter block
  itself, so that two nonces give two tags.
\<close>

definition example_counter_ext :: "nat gcm_ext" where
  "example_counter_ext =
     example_ext\<lparr>Engine_Transform := (\<lambda>k b. take 16 (b @ replicate 16 0))\<rparr>"

section \<open>Keccak512: Update and Finalize (Keccak512.cpp)\<close>

text \<open>
  \<open>size_t\<close> addition wraps around, like the subtraction above.
\<close>

definition size_t_add :: "nat \<Rightarrow> nat \<Rightarrow> nat" where
  "size_t_add a b = (a + b) mod 2 ^ 64"

text \<open>
  Modelled from the spec: \<open>IntUtils::LeULL512ToBlock(Input, InOffset, Output, OutOffset)\<close>
  (IntUtils.h is missing) writes the 512 bits held by eight 64-bit words of \<open>Input\<close> from
  \<open>InOffset\<close> to \<open>Output\<close> at \<open>OutOffset\<close>, each word in little-endian byte order.
\<close>

definition Le64ToBytes :: "ulong \<Rightarrow> byte list" where
  "Le64ToBytes w = map (\<lambda>i. ucast (drop_bit (8 * i) w)) [0..<8]"

definition LeULL512ToBlock :: "ulong list \<Rightarrow> nat \<Rightarrow> byte list \<Rightarrow> nat \<Rightarrow> error + byte list" where
  "LeULL512ToBlock Input InOffset Output OutOffset =
     (if InOffset + 8 \<le> length Input \<and> OutOffset + 64 \<le> length Output
      then Inr (buffer_write Output OutOffset
                  (concat (map Le64ToBytes (buffer_slice Input InOffset 8))))
      else Inl OutOfRange)"

text \<open>
  \<open>HashFinal\<close> writes the two padding bytes into \<open>Input\<close> (the vector is returned as it
  leaves it), compresses the block and complements five words of the state.
\<close>

definition Keccak512_HashFinal ::
  "keccak_ext \<Rightarrow> byte list \<Rightarrow> nat \<Rightarrow> nat \<Rightarrow> Keccak512State
   \<Rightarrow> error + (byte list \<times> Keccak512State)" where
  "Keccak512_HashFinal ext Input InOffset Length State =
     (if length Input \<le> InOffset + Length then Inl OutOfRange
      else
        let Input1 = Input[InOffset + Length := 1] in
        if length Input1 \<le> InOffset + 72 - 1 then Inl OutOfRange
        else
          let Input2 = Input1[InOffset + 72 - 1 := (Input1 ! (InOffset + 72 - 1)) OR 128];
              State1 = Keccak512_Compress ext Input2 InOffset State;
              H = State_H State1
          in if length H \<le> 17 then Inl OutOfRange
             else Inr (Input2,
                       State1\<lparr>State_H := H[1 := NOT (H ! 1), 2 := NOT (H ! 2), 8 := NOT (H ! 8),
                                            12 := NOT (H ! 12), 17 := NOT (H ! 17)]\<rparr>))"

text \<open>
  \<open>ProcessLeaf\<close>: a do-while loop on an unsigned 64-bit \<open>Length\<close>, which leaves only when
  \<open>Length\<close> reaches zero exactly; it need not return (\<open>None\<close>). \<open>pms\<close> is
  \<open>m_parallelProfile.ParallelMinimumSize()\<close>.
\<close>

partial_function (option) Keccak512_ProcessLeaf ::
  "keccak_ext \<Rightarrow> nat \<Rightarrow> byte list \<Rightarrow> nat \<Rightarrow> Keccak512State \<Rightarrow> ulong
   \<Rightarrow> Keccak512State option" where
  "Keccak512_ProcessLeaf ext pms Input InOffset State Length =
     (let State1 = Keccak512_Compress ext Input InOffset State;
          InOffset1 = size_t_add InOffset pms;
          Length1 = Length - of_nat pms
      in if Length1 > 0 then Keccak512_ProcessLeaf ext pms Input InOffset1 State1 Length1
         else Some State1)"

text \<open>
  Modelled from the spec: \<open>ParallelUtils::ParallelFor(From, To, f)\<close> (ParallelUtils.h is
  missing) is a fork-join over the indexes, each worker on its own leaf state (section 5);
  it is written as a loop over the indexes. The worker \<open>f i\<close> is given the leaf state
  \<open>m_dgtState[i]\<close> and returns it as it leaves it, or does not return.
\<close>

fun Keccak512_ParallelFor ::
  "nat list \<Rightarrow> (nat \<Rightarrow> Keccak512State \<Rightarrow> Keccak512State option) \<Rightarrow> Keccak512State list
   \<Rightarrow> (error + Keccak512State list) option" where
  "Keccak512_ParallelFor [] f ds = Some (Inr ds)"
| "Keccak512_ParallelFor (i # rest) f ds =
     (if length ds \<le> i then Some (Inl OutOfRange)
      else case f i (ds ! i) of
             None \<Rightarrow> None
           | Some st \<Rightarrow> Keccak512_ParallelFor rest f (ds[i := st]))"

text \<open>
  Sequencing of calls that may fail or not return.
\<close>

definition rbind ::
  "(error + 'a) option \<Rightarrow> ('a \<Rightarrow> (error + 'b) option) \<Rightarrow> (error + 'b) option" where
  "rbind m f = (case m of None \<Rightarrow> None | Some (Inl e) \<Rightarrow> Some (Inl e) | Some (Inr x) \<Rightarrow> f x)"

text \<open>
  The parallel branch of \<open>Update\<close>, first block: fill the buffer and empty it. The
  functions of this branch return the instance with \<open>InOffset\<close> and \<open>Length\<close> as they
  leave them.
\<close>

definition Keccak512_Update_fill ::
  "keccak_ext \<Rightarrow> Keccak512 \<Rightarrow> byte list \<Rightarrow> nat \<Rightarrow> nat
   \<Rightarrow> (error + (Keccak512 \<times> nat \<times> nat)) option" where
  "Keccak512_Update_fill ext s Input InOffset Length =
     (if m_msgLength s \<noteq> 0 \<and> length (m_msgBuffer s) \<le> size_t_add Length (m_msgLength s)
      then
        let RMDLEN = size_t_sub (length (m_msgBuffer s)) (m_msgLength s) in
        rbind (Some (if RMDLEN \<noteq> 0
                     then Copy Input InOffset (m_msgBuffer s) (m_msgLength s) RMDLEN
                     else Inr (m_msgBuffer s))) (\<lambda>buf.
        rbind (Keccak512_ParallelFor [0..<ParallelMaxDegree (m_parallelProfile s)]
                 (\<lambda>i st. Some (Keccak512_Compress ext buf (i * 72) st)) (m_dgtState s)) (\<lambda>ds.
        Some (Inr (s\<lparr>m_msgBuffer := buf, m_dgtState := ds, m_msgLength := 0\<rparr>,
                   size_t_add InOffset RMDLEN, size_t_sub Length RMDLEN))))
      else Some (Inr (s, InOffset, Length)))"

text \<open>
  The second and the third block of the parallel branch differ only in the size they
  test and round to: \<open>ParallelBlockSize()\<close>, then \<open>ParallelMinimumSize()\<close> (the
  parameter \<open>Size\<close>); \<open>Length % Size\<close> is a division.
\<close>

definition Keccak512_Update_leaves ::
  "keccak_ext \<Rightarrow> Keccak512 \<Rightarrow> byte list \<Rightarrow> nat \<Rightarrow> nat \<Rightarrow> nat
   \<Rightarrow> (error + (Keccak512 \<times> nat \<times> nat)) option" where
  "Keccak512_Update_leaves ext s Input InOffset Length Size =
     (if Size \<le> Length
      then
        if Size = 0 then Some (Inl DivisionByZero)
        else
          let PRCLEN = Length - Length mod Size in
          rbind (Keccak512_ParallelFor [0..<ParallelMaxDegree (m_parallelProfile s)]
                   (\<lambda>i st. Keccak512_ProcessLeaf ext
                              (ParallelMinimumSize (m_parallelProfile s)) Input
                              (size_t_add InOffset (i * 72)) st (of_nat PRCLEN))
                   (m_dgtState s)) (\<lambda>ds.
          Some (Inr (s\<lparr>m_dgtState := ds\<rparr>, size_t_add InOffset PRCLEN, Length - PRCLEN)))
      else Some (Inr (s, InOffset, Length)))"

text \<open>
  The sequential branch: the loop through the blocks of \<open>Input\<close>, on \<open>m_dgtState[0]\<close>.
\<close>

function Keccak512_Update_loop ::
  "keccak_ext \<Rightarrow> byte list \<Rightarrow> nat \<Rightarrow> nat \<Rightarrow> Keccak512State list
   \<Rightarrow> error + (Keccak512State list \<times> nat \<times> nat)" where
  "Keccak512_Update_loop ext Input InOffset Length ds =
     (if 72 \<le> Length
      then if ds = [] then Inl OutOfRange
           else Keccak512_Update_loop ext Input (size_t_add InOffset 72) (Length - 72)
                  (ds[0 := Keccak512_Compress ext Input InOffset (ds ! 0)])
      else Inr (ds, InOffset, Length))"
  by pat_completeness auto

termination
  by (relation "measure (\<lambda>(ext, Input, InOffset, Length, ds). Length)") auto

declare Keccak512_Update_loop.simps [simp del]

definition Keccak512_Update_sequential ::
  "keccak_ext \<Rightarrow> Keccak512 \<Rightarrow> byte list \<Rightarrow> nat \<Rightarrow> nat \<Rightarrow> error + (Keccak512 \<times> nat \<times> nat)" where
  "Keccak512_Update_sequential ext s Input InOffset Length =
     ebind (if m_msgLength s \<noteq> 0 \<and> 72 \<le> size_t_add (m_msgLength s) Length
            then
              let RMDLEN = size_t_sub 72 (m_msgLength s) in
              ebind (if RMDLEN \<noteq> 0
                     then Copy Input InOffset (m_msgBuffer s) (m_msgLength s) RMDLEN
                     else Inr (m_msgBuffer s)) (\<lambda>buf.
              if m_dgtState s = [] then Inl OutOfRange
              else Inr (s\<lparr>m_msgBuffer := buf,
                          m_dgtState := (m_dgtState s)
                             [0 := Keccak512_Compress ext buf 0 (m_dgtState s ! 0)],
                          m_msgLength := 0\<rparr>,
                        size_t_add InOffset RMDLEN, size_t_sub Length RMDLEN))
            else Inr (s, InOffset, Length)) (\<lambda>(s1, InOffset1, Length1).
     ebind (Keccak512_Update_loop ext Input InOffset1 Length1 (m_dgtState s1))
       (\<lambda>(ds, InOffset2, Length2).
     Inr (s1\<lparr>m_dgtState := ds\<rparr>, InOffset2, Length2)))"

definition Keccak512_Update ::
  "keccak_ext \<Rightarrow> Keccak512 \<Rightarrow> byte list \<Rightarrow> nat \<Rightarrow> nat \<Rightarrow> (error + Keccak512) option" where
  "Keccak512_Update ext s Input InOffset Length =
     rbind (Some (CEXASSERT (Length \<le> size_t_sub (length Input) InOffset) (Inr ()))) (\<lambda>_.
     if Length = 0 then Some (Inr s)
     else
       rbind (if IsParallel (m_parallelProfile s)
              then
                rbind (Keccak512_Update_fill ext s Input InOffset Length)
                  (\<lambda>(s1, InOffset1, Length1).
                rbind (Keccak512_Update_leaves ext s1 Input InOffset1 Length1
                         (ParallelBlockSize (m_parallelProfile s1)))
                  (\<lambda>(s2, InOffset2, Length2).
                Keccak512_Update_leaves ext s2 Input InOffset2 Length2
                  (ParallelMinimumSize (m_parallelProfile s2))))
              else Some (Keccak512_Update_sequential ext s Input InOffset Length))
         (\<lambda>(s3, InOffset3, Length3).
       if Length3 \<noteq> 0
       then rbind (Some (Copy Input InOffset3 (m_msgBuffer s3) (m_msgLength s3) Length3))
              (\<lambda>buf.
            Some (Inr (s3\<lparr>m_msgBuffer := buf,
                         m_msgLength := size_t_add (m_msgLength s3) Length3\<rparr>)))
       else Some (Inr s3)))"

text \<open>
  The parallel branch of \<open>Finalize\<close>. The loop over the buffered blocks
  (\<open>Keccak512_Finalize_leaves\<close>) leaves when \<open>m_msgLength\<close> is zero; then the loop over
  the leaf states (\<open>Keccak512_Finalize_states\<close>) writes them into the buffer and counts
  their bytes in \<open>m_msgLength\<close>.
\<close>

function Keccak512_Finalize_leaves ::
  "keccak_ext \<Rightarrow> nat \<Rightarrow> nat \<Rightarrow> byte list \<Rightarrow> Keccak512State list
   \<Rightarrow> error + (byte list \<times> Keccak512State list)" where
  "Keccak512_Finalize_leaves ext blkCtr msgLength buf ds =
     (if msgLength = 0 then Inr (buf, ds)
      else
        let MSGRMD = (if 72 \<le> msgLength then 72 else msgLength) in
        if length ds \<le> blkCtr then Inl OutOfRange
        else case Keccak512_HashFinal ext buf (blkCtr * 72) MSGRMD (ds ! blkCtr) of
               Inl e \<Rightarrow> Inl e
             | Inr (buf1, st) \<Rightarrow>
                 Keccak512_Finalize_leaves ext (blkCtr + 1) (msgLength - MSGRMD) buf1
                   (ds[blkCtr := st]))"
  by pat_completeness auto

termination
  by (relation "measure (\<lambda>(ext, blkCtr, msgLength, buf, ds). msgLength)") auto

declare Keccak512_Finalize_leaves.simps [simp del]

fun Keccak512_Finalize_states ::
  "Keccak512State list \<Rightarrow> nat \<Rightarrow> byte list \<Rightarrow> nat \<Rightarrow> error + (byte list \<times> nat)" where
  "Keccak512_Finalize_states [] i buf msgLength = Inr (buf, msgLength)"
| "Keccak512_Finalize_states (st # rest) i buf msgLength =
     ebind (LeULL512ToBlock (State_H st) 0 buf (i * 72)) (\<lambda>buf1.
     Keccak512_Finalize_states rest (i + 1) buf1 (size_t_add msgLength 64))"

definition Keccak512_Finalize_parallel ::
  "keccak_ext \<Rightarrow> Keccak512 \<Rightarrow> byte list \<Rightarrow> nat \<Rightarrow> error + (Keccak512 \<times> byte list)" where
  "Keccak512_Finalize_parallel ext s Output OutOffset =
     ebind (if m_msgLength s < length (m_msgBuffer s)
            then Clear (m_msgBuffer s) (m_msgLength s) (length (m_msgBuffer s) - m_msgLength s)
            else Inr (m_msgBuffer s)) (\<lambda>buf1.
     ebind (Keccak512_Finalize_leaves ext 0 (m_msgLength s) buf1 (m_dgtState s)) (\<lambda>(buf2, ds).
     ebind Keccak512State_ctor (\<lambda>rootState.
     ebind (Keccak512_Finalize_states ds 0 buf2 0) (\<lambda>(buf3, msgLength3).
     let (rootState1, msgLength4, blkOff) =
           (if 72 < msgLength3
            then let BLKRMD = msgLength3 - msgLength3 mod 72
                 in (foldl (\<lambda>st i. Keccak512_Compress ext buf3 (i * 72) st) rootState
                       [0..<BLKRMD div 72],
                     msgLength3 - BLKRMD, BLKRMD)
            else (rootState, msgLength3, 0))
     in
     ebind (Keccak512_HashFinal ext buf3 blkOff msgLength4 rootState1) (\<lambda>(buf4, rootState2).
     ebind (LeULL512ToBlock (State_H rootState2) 0 Output OutOffset) (\<lambda>out.
     Inr (s\<lparr>m_msgBuffer := buf4, m_dgtState := ds, m_msgLength := msgLength4\<rparr>, out)))))))"

definition Keccak512_Finalize_sequential ::
  "keccak_ext \<Rightarrow> Keccak512 \<Rightarrow> byte list \<Rightarrow> nat \<Rightarrow> error + (Keccak512 \<times> byte list)" where
  "Keccak512_Finalize_sequential ext s Output OutOffset =
     ebind (if m_msgLength s \<noteq> length (m_msgBuffer s)
            then Clear (m_msgBuffer s) (m_msgLength s)
                   (size_t_sub (length (m_msgBuffer s)) (m_msgLength s))
            else Inr (m_msgBuffer s)) (\<lambda>buf1.
     if m_dgtState s = [] then Inl OutOfRange
     else
       ebind (Keccak512_HashFinal ext buf1 0 (m_msgLength s) (m_dgtState s ! 0)) (\<lambda>(buf2, st).
       ebind (LeULL512ToBlock (State_H st) 0 Output OutOffset) (\<lambda>out.
       Inr (s\<lparr>m_msgBuffer := buf2, m_dgtState := (m_dgtState s)[0 := st]\<rparr>, out))))"

text \<open>
  \<open>Finalize\<close> returns the instance and \<open>Output\<close> as it leaves them (the value returned
  by the C++ function is the constant \<open>DIGEST_SIZE\<close>).
\<close>

definition Keccak512_Finalize ::
  "keccak_ext \<Rightarrow> Keccak512 \<Rightarrow> byte list \<Rightarrow> nat \<Rightarrow> error + (Keccak512 \<times> byte list)" where
  "Keccak512_Finalize ext s Output OutOffset =
     CEXASSERT (64 \<le> size_t_sub (length Output) OutOffset)
       (ebind (if IsParallel (m_parallelProfile s)
               then Keccak512_Finalize_parallel ext s Output OutOffset
               else Keccak512_Finalize_sequential ext s Output OutOffset) (\<lambda>(s1, out).
        ebind (Keccak512_Reset ext s1) (\<lambda>s2.
        Inr (s2, out))))"

text \<open>
  The constructors. The tree parameters built by \<open>KeccakParams(DIGEST_SIZE, BLOCK_SIZE,
  DEF_PRLDEGREE)\<close> and the profile built by the constructor of \<open>ParallelOptions\<close> are the
  parameters \<open>params\<close> and \<open>profile\<close> (both classes are missing).
\<close>

definition Keccak512_ctor ::
  "keccak_ext \<Rightarrow> KeccakParams \<Rightarrow> ParallelOptions \<Rightarrow> bool \<Rightarrow> error + Keccak512" where
  "Keccak512_ctor ext params profile Parallel =
     ebind Keccak512State_ctor (\<lambda>st.
     Keccak512_Reset ext
       \<lparr>m_treeParams = params,
        m_dgtState = replicate (if Parallel then 8 else 1) st,
        m_isDestroyedK = False,
        m_msgBuffer = replicate (if Parallel then 8 * 72 else 72) 0,
        m_msgLength = 0,
        m_parallelProfile =
          (if IsParallel profile then profile\<lparr>IsParallel := Parallel\<rparr> else profile)\<rparr>)"

definition Keccak512_ctor_Params ::
  "keccak_ext \<Rightarrow> KeccakParams \<Rightarrow> ParallelOptions \<Rightarrow> error + Keccak512" where
  "Keccak512_ctor_Params ext Params profile =
     ebind Keccak512State_ctor (\<lambda>st.
     Keccak512_Reset ext
       (if 1 < FanOut Params
        then \<lparr>m_treeParams = Params, m_dgtState = replicate (FanOut Params) st,
               m_isDestroyedK = False, m_msgBuffer = replicate (FanOut Params * 72) 0,
               m_msgLength = 0, m_parallelProfile = profile\<rparr>
        else \<lparr>m_treeParams = Params, m_dgtState = replicate 1 st,
               m_isDestroyedK = False, m_msgBuffer = replicate 72 0,
               m_msgLength = 0,
               m_parallelProfile =
                 (if IsParallel profile then profile\<lparr>IsParallel := False\<rparr> else profile)\<rparr>))"

definition Keccak512_Compute ::
  "keccak_ext \<Rightarrow> Keccak512 \<Rightarrow> byte list \<Rightarrow> byte list
   \<Rightarrow> (error + (Keccak512 \<times> byte list)) option" where
  "Keccak512_Compute ext s Input Output =
     rbind (Keccak512_Update ext s Input 0 (length Input)) (\<lambda>s1.
     Some (Keccak512_Finalize ext s1 (vector_resize Output 64) 0))"

text \<open>
  What the C++ types give for free: the permutation works on the caller's state vector in
  place, so its length stays.
\<close>

definition keccak_ok :: "keccak_ext \<Rightarrow> bool" where
  "keccak_ok ext = (\<forall>Input InOffset Size H. length (Permute ext Input InOffset Size H) = length H)"

text \<open>
  Two instances that differ at most in what \<open>Update\<close> and \<open>Finalize\<close> write before the
  final \<open>Reset\<close>: the bytes of the buffer, the message length and the words of the leaf
  states.
\<close>

definition Keccak512_same_shape :: "Keccak512 \<Rightarrow> Keccak512 \<Rightarrow> bool" where
  "Keccak512_same_shape s s' =
     (m_treeParams s' = m_treeParams s \<and> m_isDestroyedK s' = m_isDestroyedK s
      \<and> m_parallelProfile s' = m_parallelProfile s
      \<and> length (m_msgBuffer s') = length (m_msgBuffer s)
      \<and> map (\<lambda>st. length (State_H st)) (m_dgtState s')
          = map (\<lambda>st. length (State_H st)) (m_dgtState s))"

text \<open>
  The leaf state \<open>i\<close> as the specification words it (sections 3 and 4.E): 25 words with the
  fixed complementation mask, and in a tree the parameters with \<open>node_offset = i\<close>
  absorbed. \<open>n\<close> is the number of words.
\<close>

definition spec_leaf_state :: "keccak_ext \<Rightarrow> bool \<Rightarrow> KeccakParams \<Rightarrow> nat \<Rightarrow> nat \<Rightarrow> Keccak512State" where
  "spec_leaf_state ext parallel p i n =
     (let st = \<lparr>State_H = (replicate n 0)[1 := MAX_ULL, 2 := MAX_ULL, 8 := MAX_ULL,
                                           12 := MAX_ULL, 17 := MAX_ULL, 20 := MAX_ULL],
                State_T = 0\<rparr>
      in if parallel
         then Keccak512_Compress ext (ToBytes ext (p\<lparr>NodeOffset := of_nat i\<rparr>)) 0 st
         else st)"

text \<open>
  Several calls of \<open>Update\<close> in a row, one for each piece \<open>(Input, InOffset, Length)\<close> of
  a message.
\<close>

fun Keccak512_Updates ::
  "keccak_ext \<Rightarrow> Keccak512 \<Rightarrow> (byte list \<times> nat \<times> nat) list \<Rightarrow> (error + Keccak512) option" where
  "Keccak512_Updates ext s [] = Some (Inr s)"
| "Keccak512_Updates ext s ((Input, InOffset, Length) # rest) =
     rbind (Keccak512_Update ext s Input InOffset Length) (\<lambda>s1.
     Keccak512_Updates ext s1 rest)"

text \<open>
  A small instance of the collaborators of the digest and of the tree parameters, at which
  the hypotheses of the theorem on \<open>Finalize\<close> are met.
\<close>

definition example_keccak_ext :: keccak_ext where
  "example_keccak_ext =
     \<lparr>Permute = (\<lambda>Input InOffset Size H. rev H),
      ToBytes = (\<lambda>p. replicate 72 0),
      SetMaxDegree = (\<lambda>p n. p\<lparr>ParallelMaxDegree := n\<rparr>)\<rparr>"

definition example_params :: KeccakParams where
  "example_params =
     \<lparr>DigestLen = 64, KeyLen = 0, FanOut = 8, Depth = 1, LeafLen = 72, NodeOffset = 0,
      NodeDepth = 0, InnerLen = 0, ThreadCount = 8\<rparr>"

text \<open>
  The format as the specification words it, to compare \<open>Serialize\<close> with: a 16-bit
  length prefix, low byte first.
\<close>

definition spec_le16 :: "nat \<Rightarrow> byte list" where
  "spec_le16 n = [of_nat (n mod 256), of_nat (n div 256 mod 256)]"

section \<open>Theorems\<close>

lemma ebind_Inl [simp]: "ebind (Inl e) f = Inl e"
  by (simp add: ebind_def)

lemma ebind_Inr [simp]: "ebind (Inr x) f = f x"
  by (simp add: ebind_def)

subsection \<open>BlakeB512::Name\<close>

text \<open>
  C9. The specification asks for distinct names in parallel and sequential mode. Both branches of
  \<open>Name()\<close> return the same literal, so the two modes have the same name, while the
  sibling accessor \<open>Enumeral()\<close> does tell them apart.
\<close>

theorem C9_BlakeB512_Name_same:
  "BlakeB512_Name True = BlakeB512_Name False
   \<and> BlakeB512_Name False = ''BlakeBP512''
   \<and> BlakeB512_Enumeral True \<noteq> BlakeB512_Enumeral False"
  by (simp add: BlakeB512_Name_def BlakeB512_Enumeral_def)

subsection \<open>SymmetricKey serialization\<close>

lemma ucast_lo_byte: "(ucast (of_nat n :: ushort) :: byte) = of_nat (n mod 256)"
proof -
  have "n mod 256 = take_bit 8 n" by (simp add: take_bit_eq_mod)
  then show ?thesis
    by (auto intro!: bit_eqI simp add: bit_simps)
qed

lemma ucast_hi_byte: "(ucast (drop_bit 8 (of_nat n :: ushort)) :: byte) = of_nat (n div 256)"
proof -
  have "n div 256 = drop_bit 8 n" by (simp add: drop_bit_eq_div)
  then show ?thesis
    by (auto intro!: bit_eqI simp add: bit_simps)
qed

lemma le16_read_write:
  "(ucast (ucast v :: byte) :: ushort)
     OR push_bit 8 (ucast (ucast (drop_bit 8 v :: ushort) :: byte)) = v"
  by (rule bit_eqI) (auto simp add: bit_simps)

lemma sint_of_nat16: "n < 32768 \<Longrightarrow> sint (of_nat n :: ushort) = int n"
  by (simp add: signed_of_nat signed_take_bit_int_eq_self)

lemma Serialize_bytes:
  "SymmetricKey_Serialize k =
     [ucast (of_nat (length (m_key k)) :: ushort),
      ucast (drop_bit 8 (of_nat (length (m_key k)) :: ushort)),
      ucast (of_nat (length (m_nonce k)) :: ushort),
      ucast (drop_bit 8 (of_nat (length (m_nonce k)) :: ushort)),
      ucast (of_nat (length (m_info k)) :: ushort),
      ucast (drop_bit 8 (of_nat (length (m_info k)) :: ushort))]
     @ m_key k @ m_nonce k @ m_info k"
  by (simp add: SymmetricKey_Serialize_def Let_def StreamWriter_Write16_def
      StreamWriter_WriteBytes_def)

lemma DeSerialize_stream:
  assumes "length key < 32768" "length nonce < 32768" "length info < 32768"
  shows "SymmetricKey_DeSerialize
     ([ucast (of_nat (length key) :: ushort), ucast (drop_bit 8 (of_nat (length key) :: ushort)),
       ucast (of_nat (length nonce) :: ushort), ucast (drop_bit 8 (of_nat (length nonce) :: ushort)),
       ucast (of_nat (length info) :: ushort), ucast (drop_bit 8 (of_nat (length info) :: ushort))]
      @ key @ nonce @ info) = SymmetricKey_ctor3 key nonce info"
  using assms
  by (simp add: SymmetricKey_DeSerialize_def StreamReader_ReadInt16_def
      StreamReader_ReadBytes_def le16_read_write sint_of_nat16)

text \<open>
  \<open>DeSerialize\<close> reads the lengths as signed \<open>short\<close>: a key of 32768 bytes is written
  with the prefix \<open>0x8000\<close>, read back as a negative length and skipped, and the nonce is
  then taken from the first byte of the key.
\<close>

lemma DeSerialize_signed_length:
  "SymmetricKey_DeSerialize (SymmetricKey_Serialize
       \<lparr>m_info = [], m_isDestroyed = False, m_key = replicate 32768 7,
        m_keySizes = \<lparr>KeySize = 32768, NonceSize = 1, InfoSize = 0\<rparr>, m_nonce = [1]\<rparr>)
   = SymmetricKey_ctor3 [] [7] []"
  by (simp add: Serialize_bytes SymmetricKey_DeSerialize_def StreamReader_ReadInt16_def
      StreamReader_ReadBytes_def)

text \<open>
  C8, as stated, at the empty container (\<open>SymmetricKey()\<close>, all three lengths 0):
  \<open>Serialize\<close> writes six zero bytes and \<open>DeSerialize\<close> then calls the three-argument
  constructor, which rejects three empty fields. No container is returned.
\<close>

theorem C8_empty_container_counterexample:
  "length (m_key SymmetricKey_ctor0) < 65536
   \<and> length (m_nonce SymmetricKey_ctor0) < 65536
   \<and> length (m_info SymmetricKey_ctor0) < 65536
   \<and> SymmetricKey_Serialize SymmetricKey_ctor0 = [0, 0, 0, 0, 0, 0]
   \<and> SymmetricKey_DeSerialize (SymmetricKey_Serialize SymmetricKey_ctor0)
       = Inl CryptoProcessingException"
  by (simp add: SymmetricKey_Serialize_def SymmetricKey_ctor0_def Let_def
      StreamWriter_Write16_def SymmetricKey_DeSerialize_def StreamReader_ReadInt16_def
      SymmetricKey_ctor3_def)

text \<open>
  C8, amended. For every container whose key, nonce and info lengths are below 32768 (they
  fit the signed 16-bit \<open>short\<close> that \<open>DeSerialize\<close> reads) and are not all zero:
  \<open>Serialize\<close> writes the three 16-bit little-endian length prefixes (key, nonce, info)
  followed by the raw bytes, and \<open>DeSerialize\<close> of that stream returns a container with
  the same key, nonce and info (\<open>Equals\<close> holds).
\<close>

theorem C8_Serialize_DeSerialize_roundtrip:
  assumes "length (m_key k) < 32768" "length (m_nonce k) < 32768" "length (m_info k) < 32768"
    and "m_key k \<noteq> [] \<or> m_nonce k \<noteq> [] \<or> m_info k \<noteq> []"
  shows "SymmetricKey_Serialize k =
           spec_le16 (length (m_key k)) @ spec_le16 (length (m_nonce k))
           @ spec_le16 (length (m_info k)) @ m_key k @ m_nonce k @ m_info k
         \<and> (\<exists>k'. SymmetricKey_DeSerialize (SymmetricKey_Serialize k) = Inr k'
              \<and> m_key k' = m_key k \<and> m_nonce k' = m_nonce k \<and> m_info k' = m_info k
              \<and> SymmetricKey_Equals k k')"
proof
  show "SymmetricKey_Serialize k =
           spec_le16 (length (m_key k)) @ spec_le16 (length (m_nonce k))
           @ spec_le16 (length (m_info k)) @ m_key k @ m_nonce k @ m_info k"
    using assms(1-3)
    by (simp add: Serialize_bytes spec_le16_def ucast_lo_byte ucast_hi_byte)
next
  have "SymmetricKey_DeSerialize (SymmetricKey_Serialize k)
          = SymmetricKey_ctor3 (m_key k) (m_nonce k) (m_info k)"
    unfolding Serialize_bytes using assms(1-3) by (rule DeSerialize_stream)
  with assms(4) show "\<exists>k'. SymmetricKey_DeSerialize (SymmetricKey_Serialize k) = Inr k'
              \<and> m_key k' = m_key k \<and> m_nonce k' = m_nonce k \<and> m_info k' = m_info k
              \<and> SymmetricKey_Equals k k'"
    by (auto simp add: SymmetricKey_ctor3_def SymmetricKey_Equals_def)
qed

theorem C8_Serialize_DeSerialize_roundtrip_witness:
  "\<exists>k'. SymmetricKey_DeSerialize (SymmetricKey_Serialize
       \<lparr>m_info = [], m_isDestroyed = False, m_key = [1, 2],
        m_keySizes = \<lparr>KeySize = 2, NonceSize = 1, InfoSize = 0\<rparr>, m_nonce = [3]\<rparr>) = Inr k'
     \<and> m_key k' = [1, 2] \<and> m_nonce k' = [3] \<and> m_info k' = []"
proof -
  let ?K = "\<lparr>m_info = [], m_isDestroyed = False, m_key = [1, 2],
        m_keySizes = \<lparr>KeySize = 2, NonceSize = 1, InfoSize = 0\<rparr>, m_nonce = [3]\<rparr>"
  have "\<exists>k'. SymmetricKey_DeSerialize (SymmetricKey_Serialize ?K) = Inr k'
              \<and> m_key k' = m_key ?K \<and> m_nonce k' = m_nonce ?K \<and> m_info k' = m_info ?K
              \<and> SymmetricKey_Equals ?K k'"
    by (rule C8_Serialize_DeSerialize_roundtrip [THEN conjunct2]) simp_all
  then show ?thesis by auto
qed

subsection \<open>Salsa20::Initialize and the info parameter\<close>

lemma replicate_two: "replicate 2 x = [x, x]"
  by (simp add: numeral_2_eq_2)

lemma Salsa20_Expand_constants:
  assumes "length Key = 16 \<or> length Key = 32" "length Iv = 8" "16 \<le> length (m_dstCode s)"
    "14 \<le> length (m_wrkState s)"
  shows "\<exists>s'. Salsa20_Expand s Key Iv = Inr s'
     \<and> m_dstCode s' = m_dstCode s
     \<and> LeBytesTo32 (m_dstCode s) 0 = Some (m_wrkState s' ! 0)
     \<and> LeBytesTo32 (m_dstCode s) 4 = Some (m_wrkState s' ! 5)
     \<and> LeBytesTo32 (m_dstCode s) 8 = Some (m_wrkState s' ! 8)
     \<and> LeBytesTo32 (m_dstCode s) 12 = Some (m_wrkState s' ! 13)"
  using assms
  by (auto simp add: Salsa20_Expand_def Let_def LeBytesTo32_def)

text \<open>
  C6, as stated, at a 17-byte info. \<open>Salsa20(20)\<close> on a sequential profile gives the
  instance below; \<open>SymmetricKey(key, nonce, info)\<close> with a 32-byte key, an 8-byte nonce and
  17 bytes \<open>0x41\<close> of info is a legal container; \<open>Initialize\<close> does not refuse it: it
  returns normally, the info is the distribution code and the four constant words of the
  state are read from its first sixteen bytes.
\<close>

theorem C6_info_17_bytes_counterexample:
  "Salsa20_ctor \<lparr>IsParallel = False, ParallelBlockSize = 64000,
          ParallelMinimumSize = 512, ParallelMaximumSize = 100000000,
          ParallelMaxDegree = 1, ProcessorCount = 1\<rparr> 20
     = Inr \<lparr>m_ctrVector = [0, 0], m_dstCode = [], m_isDestroyedS = False,
        m_isInitializedS = False,
        m_legalKeySizesS = [\<lparr>KeySize = 16, NonceSize = 8, InfoSize = 0\<rparr>,
                            \<lparr>KeySize = 32, NonceSize = 8, InfoSize = 0\<rparr>],
        m_legalRounds = [8, 10, 12, 14, 16, 18, 20, 22, 24, 26, 28, 30],
        m_parallelProfileS = \<lparr>IsParallel = False, ParallelBlockSize = 64000,
          ParallelMinimumSize = 512, ParallelMaximumSize = 100000000,
          ParallelMaxDegree = 1, ProcessorCount = 1\<rparr>,
        m_rndCount = 20, m_wrkState = replicate 14 0\<rparr>
   \<and> SymmetricKey_ctor3 (replicate 32 0) (replicate 8 0) (replicate 17 0x41)
     = Inr \<lparr>m_info = replicate 17 0x41, m_isDestroyed = False, m_key = replicate 32 0,
            m_keySizes = \<lparr>KeySize = 32, NonceSize = 8, InfoSize = 17\<rparr>,
            m_nonce = replicate 8 0\<rparr>
   \<and> Salsa20_Initialize
       \<lparr>m_ctrVector = [0, 0], m_dstCode = [], m_isDestroyedS = False,
        m_isInitializedS = False,
        m_legalKeySizesS = [\<lparr>KeySize = 16, NonceSize = 8, InfoSize = 0\<rparr>,
                            \<lparr>KeySize = 32, NonceSize = 8, InfoSize = 0\<rparr>],
        m_legalRounds = [8, 10, 12, 14, 16, 18, 20, 22, 24, 26, 28, 30],
        m_parallelProfileS = \<lparr>IsParallel = False, ParallelBlockSize = 64000,
          ParallelMinimumSize = 512, ParallelMaximumSize = 100000000,
          ParallelMaxDegree = 1, ProcessorCount = 1\<rparr>,
        m_rndCount = 20, m_wrkState = replicate 14 0\<rparr>
       \<lparr>m_info = replicate 17 0x41, m_isDestroyed = False, m_key = replicate 32 0,
        m_keySizes = \<lparr>KeySize = 32, NonceSize = 8, InfoSize = 17\<rparr>, m_nonce = replicate 8 0\<rparr>
     = Inr (\<lparr>m_ctrVector = [0, 0], m_dstCode = [], m_isDestroyedS = False,
        m_isInitializedS = False,
        m_legalKeySizesS = [\<lparr>KeySize = 16, NonceSize = 8, InfoSize = 0\<rparr>,
                            \<lparr>KeySize = 32, NonceSize = 8, InfoSize = 0\<rparr>],
        m_legalRounds = [8, 10, 12, 14, 16, 18, 20, 22, 24, 26, 28, 30],
        m_parallelProfileS = \<lparr>IsParallel = False, ParallelBlockSize = 64000,
          ParallelMinimumSize = 512, ParallelMaximumSize = 100000000,
          ParallelMaxDegree = 1, ProcessorCount = 1\<rparr>,
        m_rndCount = 20, m_wrkState = replicate 14 0\<rparr>
         \<lparr>m_dstCode := replicate 17 0x41, m_isInitializedS := True,
          m_wrkState := [0x41414141, 0, 0, 0, 0, 0x41414141, 0, 0, 0x41414141, 0, 0, 0, 0,
                         0x41414141]\<rparr>)"
  by (simp add: Salsa20_ctor_def Salsa20_Scope_def SymmetricKey_ctor3_def
      Salsa20_Initialize_def Salsa20_Reset_def Salsa20_Expand_def LeBytesTo32_def Let_def
      replicate_two)

text \<open>
  C6, amended. \<open>Initialize\<close> performs no check on the length of the info: with a legal key
  (16 or 32 bytes), an 8-byte nonce and a sequential parallel profile, every info of 16
  bytes or more is accepted; it becomes the distribution code and its first sixteen bytes
  replace the sigma/tau constants (state words 0, 5, 8 and 13). What happens with a
  non-empty info shorter than 16 bytes is left open.
\<close>

theorem C6_Initialize_accepts_info:
  assumes nonce: "length (m_nonce KeyParams) = 8"
    and key: "length (m_key KeyParams) = 16 \<or> length (m_key KeyParams) = 32"
    and prof: "\<not> IsParallel (m_parallelProfileS s)"
      "ParallelBlockSize (m_parallelProfileS s) \<le> ParallelMaximumSize (m_parallelProfileS s)"
    and vecs: "2 \<le> length (m_ctrVector s)" "14 \<le> length (m_wrkState s)"
    and info: "16 \<le> length (m_info KeyParams)"
  shows "\<exists>s'. Salsa20_Initialize s KeyParams = Inr s'
     \<and> m_isInitializedS s'
     \<and> m_dstCode s' = m_info KeyParams
     \<and> LeBytesTo32 (m_info KeyParams) 0 = Some (m_wrkState s' ! 0)
     \<and> LeBytesTo32 (m_info KeyParams) 4 = Some (m_wrkState s' ! 5)
     \<and> LeBytesTo32 (m_info KeyParams) 8 = Some (m_wrkState s' ! 8)
     \<and> LeBytesTo32 (m_info KeyParams) 12 = Some (m_wrkState s' ! 13)"
proof -
  let ?s1 = "(Salsa20_Scope s)\<lparr>m_dstCode := m_info KeyParams\<rparr>"
  let ?s2 = "?s1\<lparr>m_ctrVector := (m_ctrVector ?s1)[0 := 0, 1 := 0]\<rparr>"
  have r: "Salsa20_Reset ?s1 = Inr ?s2"
    using vecs(1) by (simp add: Salsa20_Reset_def Salsa20_Scope_def)
  have "\<exists>s'. Salsa20_Expand ?s2 (m_key KeyParams) (m_nonce KeyParams) = Inr s'
     \<and> m_dstCode s' = m_dstCode ?s2
     \<and> LeBytesTo32 (m_dstCode ?s2) 0 = Some (m_wrkState s' ! 0)
     \<and> LeBytesTo32 (m_dstCode ?s2) 4 = Some (m_wrkState s' ! 5)
     \<and> LeBytesTo32 (m_dstCode ?s2) 8 = Some (m_wrkState s' ! 8)
     \<and> LeBytesTo32 (m_dstCode ?s2) 12 = Some (m_wrkState s' ! 13)"
    by (rule Salsa20_Expand_constants)
      (use key nonce info vecs in \<open>simp_all add: Salsa20_Scope_def\<close>)
  then obtain s3 where s3:
     "Salsa20_Expand ?s2 (m_key KeyParams) (m_nonce KeyParams) = Inr s3"
     "m_dstCode s3 = m_info KeyParams"
     "LeBytesTo32 (m_info KeyParams) 0 = Some (m_wrkState s3 ! 0)"
     "LeBytesTo32 (m_info KeyParams) 4 = Some (m_wrkState s3 ! 5)"
     "LeBytesTo32 (m_info KeyParams) 8 = Some (m_wrkState s3 ! 8)"
     "LeBytesTo32 (m_info KeyParams) 12 = Some (m_wrkState s3 ! 13)"
    by auto
  have "Salsa20_Initialize s KeyParams = Inr (s3\<lparr>m_isInitializedS := True\<rparr>)"
    using nonce key prof info r s3(1)
    by (auto simp add: Salsa20_Initialize_def Let_def Salsa20_Scope_def)
  with s3 show ?thesis by simp
qed

theorem C6_Initialize_accepts_info_witness:
  "\<exists>s'. Salsa20_Initialize
       \<lparr>m_ctrVector = [0, 0], m_dstCode = [], m_isDestroyedS = False,
        m_isInitializedS = False,
        m_legalKeySizesS = [\<lparr>KeySize = 16, NonceSize = 8, InfoSize = 0\<rparr>,
                            \<lparr>KeySize = 32, NonceSize = 8, InfoSize = 0\<rparr>],
        m_legalRounds = [8, 10, 12, 14, 16, 18, 20, 22, 24, 26, 28, 30],
        m_parallelProfileS = \<lparr>IsParallel = False, ParallelBlockSize = 64000,
          ParallelMinimumSize = 512, ParallelMaximumSize = 100000000,
          ParallelMaxDegree = 1, ProcessorCount = 1\<rparr>,
        m_rndCount = 20, m_wrkState = replicate 14 0\<rparr>
       \<lparr>m_info = replicate 20 0x42, m_isDestroyed = False, m_key = replicate 16 1,
        m_keySizes = \<lparr>KeySize = 16, NonceSize = 8, InfoSize = 20\<rparr>, m_nonce = replicate 8 2\<rparr>
      = Inr s'
     \<and> m_isInitializedS s' \<and> m_dstCode s' = replicate 20 0x42"
proof -
  let ?S = "\<lparr>m_ctrVector = [0, 0], m_dstCode = [], m_isDestroyedS = False,
        m_isInitializedS = False,
        m_legalKeySizesS = [\<lparr>KeySize = 16, NonceSize = 8, InfoSize = 0\<rparr>,
                            \<lparr>KeySize = 32, NonceSize = 8, InfoSize = 0\<rparr>],
        m_legalRounds = [8, 10, 12, 14, 16, 18, 20, 22, 24, 26, 28, 30],
        m_parallelProfileS = \<lparr>IsParallel = False, ParallelBlockSize = 64000,
          ParallelMinimumSize = 512, ParallelMaximumSize = 100000000,
          ParallelMaxDegree = 1, ProcessorCount = 1\<rparr>,
        m_rndCount = 20, m_wrkState = replicate 14 0\<rparr>"
  let ?K = "\<lparr>m_info = replicate 20 0x42, m_isDestroyed = False, m_key = replicate 16 1,
        m_keySizes = \<lparr>KeySize = 16, NonceSize = 8, InfoSize = 20\<rparr>,
        m_nonce = replicate 8 2\<rparr> :: SymmetricKey"
  have "\<exists>s'. Salsa20_Initialize ?S ?K = Inr s'
     \<and> m_isInitializedS s'
     \<and> m_dstCode s' = m_info ?K
     \<and> LeBytesTo32 (m_info ?K) 0 = Some (m_wrkState s' ! 0)
     \<and> LeBytesTo32 (m_info ?K) 4 = Some (m_wrkState s' ! 5)
     \<and> LeBytesTo32 (m_info ?K) 8 = Some (m_wrkState s' ! 8)
     \<and> LeBytesTo32 (m_info ?K) 12 = Some (m_wrkState s' ! 13)"
    by (rule C6_Initialize_accepts_info) simp_all
  then show ?thesis by auto
qed

subsection \<open>Keccak512: the errors of Reset\<close>

lemma Keccak512State_Reset_error: "Keccak512State_Reset st = Inl e \<Longrightarrow> e = OutOfRange"
  by (simp add: Keccak512State_Reset_def Let_def split: if_splits)

lemma Keccak512_Reset_loop_error:
  "Keccak512_Reset_loop ext par idx p ds = Inl e \<Longrightarrow> e = OutOfRange"
proof (induction idx arbitrary: p ds)
  case Nil
  then show ?case by simp
next
  case (Cons i rest)
  show ?case
  proof (cases "Keccak512State_Reset (ds ! i)")
    case (Inl e')
    with Cons.prems show ?thesis
      by (auto simp add: split: if_splits dest: Keccak512State_Reset_error)
  next
    case (Inr st)
    with Cons.prems Cons.IH show ?thesis
      by (auto simp add: Let_def split: if_splits)
  qed
qed

lemma Keccak512_Reset_error: "Keccak512_Reset ext s = Inl e \<Longrightarrow> e = OutOfRange"
  by (auto simp add: Keccak512_Reset_def Clear_def ebind_def
      split: sum.splits if_splits dest: Keccak512_Reset_loop_error)

subsection \<open>GCM: initialization, transform and the round trip\<close>

lemma CEXASSERT_True [simp]: "CEXASSERT True r = r"
  by (simp add: CEXASSERT_def)

lemma CEXASSERT_False [simp]: "CEXASSERT False r = Inl AssertionFailure"
  by (simp add: CEXASSERT_def)

lemma with_gcmHash_Some [simp]: "m_gcmHash g = Some h \<Longrightarrow> with_gcmHash g f = f h"
  by (simp add: with_gcmHash_def)

lemma with_gcmHash_None [simp]: "m_gcmHash g = None \<Longrightarrow> with_gcmHash g f = Inl NullPointer"
  by (simp add: with_gcmHash_def)

lemma wrap_sub: "b \<le> a \<Longrightarrow> a < M \<Longrightarrow> (a + M - b) mod M = a - (b::nat)"
proof -
  assume le: "b \<le> a" and lt: "a < M"
  have e: "a + M - b = (a - b) + M" using le by arith
  have l: "a - b < M" using lt by arith
  have "(a + M - b) mod M = (a - b) mod M"
    by (simp only: e mod_add_self2)
  also have "\<dots> = a - b" using l by (rule mod_less)
  finally show ?thesis .
qed

lemma size_t_sub_le: "b \<le> a \<Longrightarrow> a < 2 ^ 64 \<Longrightarrow> size_t_sub a b = a - b"
  unfolding size_t_sub_def by (rule wrap_sub)

lemma Transform_size_check:
  assumes inp: "InOffset + Length \<le> li" "li < 2 ^ 64"
    and outp: "OutOffset + Length \<le> lo" "lo < 2 ^ 64"
  shows "Length \<le> min (size_t_sub li InOffset) (size_t_sub lo OutOffset)"
proof -
  have a: "InOffset \<le> li" and b: "OutOffset \<le> lo"
    using inp(1) outp(1) by simp_all
  have "size_t_sub li InOffset = li - InOffset"
    using a inp(2) by (rule size_t_sub_le)
  moreover have "size_t_sub lo OutOffset = lo - OutOffset"
    using b outp(2) by (rule size_t_sub_le)
  ultimately show ?thesis using inp(1) outp(1) by arith
qed

lemma GCM_Transform_encrypt:
  assumes "m_isInitialized g" "m_isEncryption g" "m_gcmHash g = Some h"
    and "Length \<le> min (size_t_sub (length (st Input)) InOffset)
                    (size_t_sub (length (st Output)) OutOffset)"
    and "CTR_TransformAt (Engine_Transform ext) (m_cipherMode g) st
                Input InOffset Output OutOffset Length = Inr (c, st1)"
    and "GHASH_Update ext h (buffer_slice (st1 Output) OutOffset Length) (m_checkSum g) = (h1, cs)"
  shows "GCM_Transform ext g st Input InOffset Output OutOffset Length
       = Inr (g\<lparr>m_cipherMode := c, m_gcmHash := Some h1, m_checkSum := cs,
                   m_msgSize := (m_msgSize g + Length) mod 2 ^ 64\<rparr>, st1)"
  unfolding GCM_Transform_def using assms by simp

lemma GCM_Transform_decrypt:
  assumes "m_isInitialized g" "\<not> m_isEncryption g" "m_gcmHash g = Some h"
    and "Length \<le> min (size_t_sub (length (st Input)) InOffset)
                    (size_t_sub (length (st Output)) OutOffset)"
    and "GHASH_Update ext h (buffer_slice (st Input) InOffset Length) (m_checkSum g) = (h1, cs)"
    and "CTR_TransformAt (Engine_Transform ext) (m_cipherMode g) st
                Input InOffset Output OutOffset Length = Inr (c, st1)"
  shows "GCM_Transform ext g st Input InOffset Output OutOffset Length
       = Inr (g\<lparr>m_cipherMode := c, m_gcmHash := Some h1, m_checkSum := cs,
                   m_msgSize := (m_msgSize g + Length) mod 2 ^ 64\<rparr>, st1)"
  unfolding GCM_Transform_def using assms by simp

text \<open>
  C3. \<open>Transform\<close> on an initialized instance, with \<open>Length\<close> bytes available in both
  vectors. The output vector receives the counter-mode transform of the input bytes. When
  encrypting, GHASH absorbs the \<open>Length\<close> bytes found in the output vector after that
  transform (the produced ciphertext); when decrypting, it absorbs the input bytes as they
  were before the transform, also when \<open>Output\<close> is the same vector as \<open>Input\<close>. In
  both modes \<open>m_msgSize\<close> grows by \<open>Length\<close> (in \<open>size_t\<close> arithmetic).
\<close>

theorem C3_Transform_order:
  assumes init: "m_isInitialized g" and hash: "m_gcmHash g = Some h"
    and inp: "InOffset + Length \<le> length (st Input)" "length (st Input) < 2 ^ 64"
    and outp: "OutOffset + Length \<le> length (st Output)" "length (st Output) < 2 ^ 64"
  shows "\<exists>g' st' c' bytes h'.
      GCM_Transform ext g st Input InOffset Output OutOffset Length = Inr (g', st')
    \<and> CTR_Transform (Engine_Transform ext) (m_cipherMode g)
          (buffer_slice (st Input) InOffset Length) = (c', bytes)
    \<and> st' = st(Output := buffer_write (st Output) OutOffset bytes)
    \<and> m_cipherMode g' = c'
    \<and> m_gcmHash g' = Some h'
    \<and> (h', m_checkSum g') =
        (if m_isEncryption g
         then GHASH_Update ext h (buffer_slice (st' Output) OutOffset Length) (m_checkSum g)
         else GHASH_Update ext h (buffer_slice (st Input) InOffset Length) (m_checkSum g))
    \<and> m_msgSize g' = (m_msgSize g + Length) mod 2 ^ 64"
proof -
  obtain c' bytes where ct: "CTR_Transform (Engine_Transform ext) (m_cipherMode g)
          (buffer_slice (st Input) InOffset Length) = (c', bytes)"
    by (cases "CTR_Transform (Engine_Transform ext) (m_cipherMode g)
          (buffer_slice (st Input) InOffset Length)")
  define st' where "st' = st(Output := buffer_write (st Output) OutOffset bytes)"
  have at: "CTR_TransformAt (Engine_Transform ext) (m_cipherMode g) st
                Input InOffset Output OutOffset Length = Inr (c', st')"
    using inp(1) outp(1) ct by (simp add: CTR_TransformAt_def st'_def)
  note chk = Transform_size_check [OF inp outp]
  define d where "d = (if m_isEncryption g then buffer_slice (st' Output) OutOffset Length
                       else buffer_slice (st Input) InOffset Length)"
  obtain h' cs where u: "GHASH_Update ext h d (m_checkSum g) = (h', cs)"
    by (cases "GHASH_Update ext h d (m_checkSum g)")
  define g' where "g' = g\<lparr>m_cipherMode := c', m_gcmHash := Some h', m_checkSum := cs,
                   m_msgSize := (m_msgSize g + Length) mod 2 ^ 64\<rparr>"
  have res: "GCM_Transform ext g st Input InOffset Output OutOffset Length = Inr (g', st')"
  proof (cases "m_isEncryption g")
    case True
    then have "GHASH_Update ext h (buffer_slice (st' Output) OutOffset Length) (m_checkSum g) = (h', cs)"
      using u by (simp add: d_def)
    from GCM_Transform_encrypt [OF init True hash chk at this]
    show ?thesis by (simp add: g'_def)
  next
    case False
    then have "GHASH_Update ext h (buffer_slice (st Input) InOffset Length) (m_checkSum g) = (h', cs)"
      using u by (simp add: d_def)
    from GCM_Transform_decrypt [OF init False hash chk this at]
    show ?thesis by (simp add: g'_def)
  qed
  have upd: "(h', m_checkSum g') =
        (if m_isEncryption g
         then GHASH_Update ext h (buffer_slice (st' Output) OutOffset Length) (m_checkSum g)
         else GHASH_Update ext h (buffer_slice (st Input) InOffset Length) (m_checkSum g))"
    using u by (auto simp add: d_def g'_def)
  have "GCM_Transform ext g st Input InOffset Output OutOffset Length = Inr (g', st')
    \<and> CTR_Transform (Engine_Transform ext) (m_cipherMode g)
          (buffer_slice (st Input) InOffset Length) = (c', bytes)
    \<and> st' = st(Output := buffer_write (st Output) OutOffset bytes)
    \<and> m_cipherMode g' = c'
    \<and> m_gcmHash g' = Some h'
    \<and> (h', m_checkSum g') =
        (if m_isEncryption g
         then GHASH_Update ext h (buffer_slice (st' Output) OutOffset Length) (m_checkSum g)
         else GHASH_Update ext h (buffer_slice (st Input) InOffset Length) (m_checkSum g))
    \<and> m_msgSize g' = (m_msgSize g + Length) mod 2 ^ 64"
    using res ct upd by (simp add: st'_def g'_def)
  then show ?thesis by blast
qed

lemma collaborators_okD:
  assumes "collaborators_ok ext"
  shows "length (Engine_Transform ext k b) = 16"
    and "length (snd (GHASH_Update ext h d c)) = length c"
    and "length (snd (GHASH_ProcessSegment ext h d c)) = length c"
    and "length (snd (GHASH_FinalizeBlock ext h c a m)) = length c"
  using assms by (simp_all add: collaborators_ok_def)

lemma map2_xor_zero: "length xs = n \<Longrightarrow> map2 (XOR) (replicate n (0::byte)) xs = xs"
proof (induction xs arbitrary: n)
  case Nil
  then show ?case by simp
next
  case (Cons x xs)
  then obtain m where "n = Suc m" by (cases n) auto
  with Cons show ?case by simp
qed

lemma buffer_slice_all [simp]: "buffer_slice v 0 (length v) = v"
  by (simp add: buffer_slice_def)

lemma Copy_whole: "length src = n \<Longrightarrow> length dst = n \<Longrightarrow> Copy src 0 dst 0 n = Inr src"
  by (simp add: Copy_def)

lemma Clear_whole [simp]: "Clear v 0 (length v) = Inr (replicate (length v) 0)"
  by (simp add: Clear_def)

lemma spec_J0_length:
  assumes ok: "collaborators_ok ext" and j: "spec_J0 ext h N = (hJ, J0)" and n: "8 \<le> length N"
  shows "length J0 = 16"
proof (cases "length N = 12")
  case True
  with j show ?thesis by (auto simp add: spec_J0_def)
next
  case False
  obtain h1 x where p: "GHASH_ProcessSegment ext h N (replicate 16 0) = (h1, x)"
    by (cases "GHASH_ProcessSegment ext h N (replicate 16 0)")
  have "length x = 16"
    using collaborators_okD(3) [OF ok, of h N "replicate 16 0"] p by simp
  moreover have "J0 = snd (GHASH_FinalizeBlock ext h1 x 0 (length N))"
    using j False p by (simp add: spec_J0_def)
  ultimately show ?thesis
    using collaborators_okD(4) [OF ok, of h1 x 0 "length N"] by simp
qed

lemma GCM_Initialize_vector_spec:
  assumes "m_gcmHash g = Some h" and j: "spec_J0 ext h (m_gcmVector g) = (hJ, J0)"
  shows "GCM_Initialize_vector ext g = Inr (g\<lparr>m_gcmHash := Some hJ, m_gcmVector := J0\<rparr>)"
proof (cases "length (m_gcmVector g) = 12")
  case True
  then have "(vector_resize (m_gcmVector g) 16)[15 := 1] = m_gcmVector g @ [0, 0, 0, 1]"
    by (simp add: vector_resize_def list_update_append eval_nat_numeral)
  moreover have "hJ = h" "J0 = m_gcmVector g @ [0, 0, 0, 1]"
    using j True by (simp_all add: spec_J0_def)
  ultimately show ?thesis
    using True assms(1) by (simp add: GCM_Initialize_vector_def)
next
  case False
  obtain h1 x where p: "GHASH_ProcessSegment ext h (m_gcmVector g) (replicate 16 0) = (h1, x)"
    by (cases "GHASH_ProcessSegment ext h (m_gcmVector g) (replicate 16 0)")
  have f: "GHASH_FinalizeBlock ext h1 x 0 (length (m_gcmVector g)) = (hJ, J0)"
    using j False p by (simp add: spec_J0_def)
  show ?thesis
    using False assms(1) p f by (simp add: GCM_Initialize_vector_def)
qed

lemma CTR_Transform_zero_block:
  assumes "length (E key v) = 16"
  shows "CTR_Transform E (CTR_Initialize c key v) (replicate 16 0)
         = (\<lparr>ctr_key = key, ctr_vector = BeIncrement8 v, ctr_isInitialized = True\<rparr>, E key v)"
proof -
  have "(length (replicate 16 (0::byte)) + 15) div 16 = Suc 0" by simp
  then show ?thesis
    using assms by (simp add: CTR_Transform_def CTR_Initialize_def map2_xor_zero)
qed

lemma profile_accepted_checks:
  assumes "profile_accepted po"
  shows "\<not> ((IsParallel po \<and> ParallelBlockSize po < ParallelMinimumSize po)
              \<or> ParallelBlockSize po > ParallelMaximumSize po)"
    and "\<not> (IsParallel po \<and> ParallelMinimumSize po = 0)"
    and "\<not> (IsParallel po \<and> ParallelBlockSize po mod ParallelMinimumSize po \<noteq> 0)"
  using assms by (auto simp add: profile_accepted_def split: if_splits)

lemma GCM_Scope_fields [simp]:
  "m_parallelProfileG (GCM_Scope ext g) = m_parallelProfileG g"
  "m_gcmNonce (GCM_Scope ext g) = m_gcmNonce g"
  "m_cipherMode (GCM_Scope ext g) = m_cipherMode g"
  "m_isFinalized (GCM_Scope ext g) = m_isFinalized g"
  "m_msgTag (GCM_Scope ext g) = m_msgTag g"
  "m_gcmHash (GCM_Scope ext g) = m_gcmHash g"
  "m_gcmKey (GCM_Scope ext g) = m_gcmKey g"
  by (simp_all add: GCM_Scope_def)

lemma GCM_Initialize_counter_block:
  assumes l: "length (m_gcmVector g) = 16"
    and l2: "length (Engine_Transform ext (m_gcmKey g) (m_gcmVector g)) = 16"
  shows "GCM_Initialize_counter ext g =
     Inr (g\<lparr>m_cipherMode := \<lparr>ctr_key = m_gcmKey g, ctr_vector = BeIncrement8 (m_gcmVector g),
                                ctr_isInitialized = True\<rparr>,
             m_gcmVector := Engine_Transform ext (m_gcmKey g) (m_gcmVector g),
             m_msgTag := (if m_isFinalized g then replicate (length (m_msgTag g)) 0
                          else m_msgTag g),
             m_isFinalized := False, m_isInitialized := True\<rparr>)"
proof -
  have k: "SymmetricKey_ctor2 (m_gcmKey g) (m_gcmVector g) =
     Inr \<lparr>m_info = [], m_isDestroyed = False, m_key = m_gcmKey g,
        m_keySizes = \<lparr>KeySize = length (m_gcmKey g), NonceSize = length (m_gcmVector g),
                      InfoSize = 0\<rparr>,
        m_nonce = m_gcmVector g\<rparr>"
    using l by (auto simp add: SymmetricKey_ctor2_def)
  have s16: "buffer_slice (replicate 16 (0::byte)) 0 16 = replicate 16 0"
    by (simp add: buffer_slice_def)
  note z = CTR_Transform_zero_block [where E = "Engine_Transform ext" and key = "m_gcmKey g"
      and v = "m_gcmVector g", OF l2]
  show ?thesis
    unfolding GCM_Initialize_counter_def
    by (simp add: k s16 z Copy_whole [OF l2 l])
qed

lemma GCM_Initialize_keyed:
  assumes ok: "collaborators_ok ext"
    and nonce: "8 \<le> length (m_nonce kp)"
    and key: "m_key kp \<noteq> []"
    and legal: "Contains (m_legalKeySizes (GCM_Scope ext g)) (length (m_key kp))"
    and prof: "profile_accepted (m_parallelProfileG g)"
    and j: "spec_J0 ext (spec_hash_subkey ext (m_key kp)) (m_nonce kp) = (hJ, J0)"
  shows "GCM_Initialize ext g Encryption kp =
         Inr (GCM_initialized (GCM_Scope ext g) Encryption (m_key kp) (m_nonce kp) hJ J0
                (Engine_Transform ext (m_key kp) J0))"
proof -
  let ?g1 = "(GCM_Scope ext g)\<lparr>m_gcmHash := Some (spec_hash_subkey ext (m_key kp)),
                             m_gcmKey := m_key kp\<rparr>"
  let ?g1' = "?g1\<lparr>m_isEncryption := Encryption, m_gcmNonce := m_nonce kp,
                 m_gcmVector := m_nonce kp\<rparr>"
  let ?g2 = "?g1'\<lparr>m_gcmHash := Some hJ, m_gcmVector := J0\<rparr>"
  have kpart: "GCM_Initialize_key ext (GCM_Scope ext g) kp = Inr ?g1"
    using key legal by (simp add: GCM_Initialize_key_def spec_hash_subkey_def Let_def)
  have v: "GCM_Initialize_vector ext ?g1' = Inr ?g2"
    by (rule GCM_Initialize_vector_spec [where h = "spec_hash_subkey ext (m_key kp)"])
      (use j in simp_all)
  have l: "length J0 = 16" by (rule spec_J0_length [OF ok j nonce])
  have c: "GCM_Initialize_counter ext ?g2 =
        Inr (GCM_initialized (GCM_Scope ext g) Encryption (m_key kp) (m_nonce kp) hJ J0
                (Engine_Transform ext (m_key kp) J0))"
    using l collaborators_okD(1) [OF ok, of "m_key kp" J0]
    by (simp add: GCM_Initialize_counter_block GCM_initialized_def)
  have "GCM_Initialize ext g Encryption kp =
        ebind (GCM_Initialize_key ext (GCM_Scope ext g) kp) (\<lambda>g1.
        ebind (GCM_Initialize_vector ext
                 (g1\<lparr>m_isEncryption := Encryption, m_gcmNonce := m_nonce kp,
                     m_gcmVector := m_nonce kp\<rparr>)) (\<lambda>g2.
        GCM_Initialize_counter ext g2))"
    unfolding GCM_Initialize_def Let_def
    using nonce profile_accepted_checks [OF prof]
    by (simp only: GCM_Scope_fields if_False not_less [symmetric] not_False_eq_True)
  also have "\<dots> = ebind (GCM_Initialize_vector ext ?g1') (\<lambda>g2. GCM_Initialize_counter ext g2)"
    by (simp only: kpart ebind_Inr)
  also have "\<dots> = GCM_Initialize_counter ext ?g2"
    by (simp only: v ebind_Inr)
  finally show ?thesis by (simp only: c)
qed

lemma length_vector_resize [simp]: "length (vector_resize v n) = n"
  by (simp add: vector_resize_def)

lemma GCM_SetAssociatedData_whole:
  assumes "m_isInitialized g" "\<not> m_aadLoaded g" "m_gcmHash g = Some h"
    and "GHASH_ProcessSegment ext h a (m_checkSum g) = (h1, cs)"
  shows "GCM_SetAssociatedData ext g a 0 (length a) =
     Inr (g\<lparr>m_aadData := a, m_gcmHash := Some h1, m_checkSum := cs,
            m_aadSize := length a, m_aadLoaded := True\<rparr>)"
  using assms by (simp add: GCM_SetAssociatedData_def Copy_def)

lemma buffer_write_whole: "length xs = length v \<Longrightarrow> buffer_write v 0 xs = xs"
  by (simp add: buffer_write_def)

lemma XorBlock_whole:
  assumes "length src = 16" "length dst = 16"
  shows "XorBlock src 0 dst 0 16 = Inr (map2 (XOR) dst src)"
  using assms by (simp add: XorBlock_def buffer_write_whole buffer_slice_def)

lemma GCM_Reset_state:
  assumes "m_gcmHash g = Some h"
  shows "GCM_Reset ext g = Inr (GCM_reset_state ext g h)"
  using assms by (simp add: GCM_Reset_def GCM_reset_state_def)

lemma GCM_CalculateMac_plain:
  assumes hash: "m_gcmHash g = Some h"
    and fin: "GHASH_FinalizeBlock ext h (m_checkSum g) (m_aadSize g) (m_msgSize g) = (h1, x)"
    and lens: "length x = 16" "length (m_gcmVector g) = 16" "length (m_msgTag g) = 16"
    and auto: "\<not> m_autoIncrement g"
  shows "GCM_CalculateMac ext g =
     Inr ((GCM_reset_state ext
            (g\<lparr>m_gcmHash := Some h1, m_checkSum := map2 (XOR) x (m_gcmVector g),
               m_msgTag := map2 (XOR) x (m_gcmVector g)\<rparr>) h1)\<lparr>m_isFinalized := True\<rparr>)"
proof -
  have x: "XorBlock (m_gcmVector g) 0 x 0 16 = Inr (map2 (XOR) x (m_gcmVector g))"
    using lens by (simp add: XorBlock_whole)
  have c: "COPY128 (map2 (XOR) x (m_gcmVector g)) 0 (m_msgTag g) 0
            = Inr (map2 (XOR) x (m_gcmVector g))"
    using lens by (simp add: COPY128_def Copy_whole)
  have r: "GCM_Reset ext (g\<lparr>m_gcmHash := Some h1, m_checkSum := map2 (XOR) x (m_gcmVector g),
               m_msgTag := map2 (XOR) x (m_gcmVector g)\<rparr>)
       = Inr (GCM_reset_state ext
            (g\<lparr>m_gcmHash := Some h1, m_checkSum := map2 (XOR) x (m_gcmVector g),
               m_msgTag := map2 (XOR) x (m_gcmVector g)\<rparr>) h1)"
    by (rule GCM_Reset_state) simp
  have a: "\<not> m_autoIncrement (GCM_reset_state ext
            (g\<lparr>m_gcmHash := Some h1, m_checkSum := map2 (XOR) x (m_gcmVector g),
               m_msgTag := map2 (XOR) x (m_gcmVector g)\<rparr>) h1)"
    using auto by (simp add: GCM_reset_state_def)
  show ?thesis
    unfolding GCM_CalculateMac_def
    by (simp only: with_gcmHash_Some [OF hash] fin Let_def prod.case x c r ebind_Inr a if_False)
qed

lemma CTR_Generate_length:
  assumes "\<forall>k b. length (E k b) = 16"
  shows "length (fst (CTR_Generate E key c n)) = 16 * n"
proof (induction n arbitrary: c)
  case 0
  then show ?case by simp
next
  case (Suc n)
  obtain ks c' where g: "CTR_Generate E key (BeIncrement8 c) n = (ks, c')"
    by (cases "CTR_Generate E key (BeIncrement8 c) n")
  with Suc [of "BeIncrement8 c"] assms show ?case by simp
qed

lemma map2_xor_cancel:
  "length xs \<le> length ks \<Longrightarrow> map2 (XOR) (map2 (XOR) xs ks) ks = (xs :: byte list)"
proof (induction xs arbitrary: ks)
  case Nil
  then show ?case by simp
next
  case (Cons x xs)
  then obtain k ks' where "ks = k # ks'" by (cases ks) auto
  with Cons show ?case by (simp add: xor.assoc)
qed

lemma CTR_Transform_involution:
  assumes e: "\<forall>k b. length (E k b) = 16" and t: "CTR_Transform E c p = (c', x)"
  shows "length x = length p" and "CTR_Transform E c x = (c', p)"
proof -
  obtain ks cn where g: "CTR_Generate E (ctr_key c) (ctr_vector c) ((length p + 15) div 16) = (ks, cn)"
    by (cases "CTR_Generate E (ctr_key c) (ctr_vector c) ((length p + 15) div 16)")
  have "length ks = 16 * ((length p + 15) div 16)"
    using CTR_Generate_length [OF e, of "ctr_key c" "ctr_vector c" "(length p + 15) div 16"] g
    by simp
  then have le: "length p \<le> length ks" by arith
  have x: "x = map2 (XOR) p ks" and c': "c' = c\<lparr>ctr_vector := cn\<rparr>"
    using t g by (simp_all add: CTR_Transform_def)
  show l: "length x = length p" using x le by simp
  show "CTR_Transform E c x = (c', p)"
    using g l le x c' by (simp add: CTR_Transform_def map2_xor_cancel)
qed

lemma spec_buffers_transform:
  assumes e: "\<forall>k b. length (E k b) = 16" and t: "CTR_Transform E c x = (c', y)"
  shows "\<exists>st1. CTR_TransformAt E c (spec_buffers ip x) 0 0 (spec_output ip) 0 (length x) = Inr (c', st1)
     \<and> buffer_slice (st1 (spec_output ip)) 0 (length x) = y
     \<and> buffer_slice (spec_buffers ip x 0) 0 (length x) = x
     \<and> length (spec_buffers ip x 0) = length x
     \<and> length (spec_buffers ip x (spec_output ip)) = length x"
proof -
  have l: "length y = length x" by (rule CTR_Transform_involution(1) [OF e t])
  show ?thesis
    using t l
    by (cases ip)
      (simp_all add: CTR_TransformAt_def spec_buffers_def spec_output_def buffer_slice_def
        buffer_write_def)
qed

text \<open>The session up to the transform, in either direction.\<close>

lemma GCM_session:
  assumes ok: "collaborators_ok ext"
    and key: "key \<noteq> []" "Contains (Engine_LegalKeySizes ext) (length key)"
    and nonce: "8 \<le> length nonce"
    and prof: "profile_accepted po"
    and len: "length x < 2 ^ 64"
    and j: "spec_J0 ext (spec_hash_subkey ext key) nonce = (hJ, J0)"
    and ad: "GHASH_ProcessSegment ext hJ a (replicate 16 0) = (h1, cs1)"
    and ct: "CTR_Transform (Engine_Transform ext)
              \<lparr>ctr_key = key, ctr_vector = BeIncrement8 J0, ctr_isInitialized = True\<rparr> x = (c', y)"
    and up: "GHASH_Update ext h1 (if enc then y else x) cs1 = (h2, cs2)"
    and kp: "SymmetricKey_ctor2 key nonce = Inr kp"
  shows "\<exists>g1 g2 g3 st.
      GCM_Initialize ext (GCM_ctor ext po) enc kp = Inr g1
    \<and> GCM_SetAssociatedData ext g1 a 0 (length a) = Inr g2
    \<and> GCM_Transform ext g2 (spec_buffers ip x) 0 0 (spec_output ip) 0 (length x) = Inr (g3, st)
    \<and> buffer_slice (st (spec_output ip)) 0 (length x) = y
    \<and> m_isInitialized g3 \<and> m_isEncryption g3 = enc \<and> \<not> m_isFinalized g3
    \<and> \<not> m_autoIncrement g3
    \<and> m_gcmHash g3 = Some h2 \<and> m_checkSum g3 = cs2 \<and> m_aadSize g3 = length a
    \<and> m_msgSize g3 = length x
    \<and> m_gcmVector g3 = Engine_Transform ext key J0
    \<and> m_msgTag g3 = replicate 16 0"
proof -
  let ?g0 = "GCM_ctor ext po"
  have kpf: "m_key kp = key" "m_nonce kp = nonce"
    using kp by (auto simp add: SymmetricKey_ctor2_def split: if_splits)
  have sc: "GCM_Scope ext ?g0 = ?g0"
    by (simp add: GCM_ctor_def GCM_Scope_def)
  have lk: "m_legalKeySizes ?g0 = Engine_LegalKeySizes ext"
    by (simp add: GCM_ctor_def GCM_Scope_def)
  define g1 where "g1 = GCM_initialized ?g0 enc key nonce hJ J0 (Engine_Transform ext key J0)"
  have pr: "m_parallelProfileG ?g0 = po"
    by (simp add: GCM_ctor_def)
  have i: "GCM_Initialize ext ?g0 enc kp = Inr g1"
  proof -
    have n': "8 \<le> length (m_nonce kp)" and k': "m_key kp \<noteq> []"
      and l': "Contains (m_legalKeySizes (GCM_Scope ext ?g0)) (length (m_key kp))"
      and p': "profile_accepted (m_parallelProfileG ?g0)"
      and j': "spec_J0 ext (spec_hash_subkey ext (m_key kp)) (m_nonce kp) = (hJ, J0)"
      using key nonce prof j by (simp_all add: kpf sc lk pr)
    from GCM_Initialize_keyed [OF ok n' k' l' p' j', of enc]
    show ?thesis by (simp only: sc kpf g1_def)
  qed
  have g1f: "m_isInitialized g1" "\<not> m_aadLoaded g1" "m_gcmHash g1 = Some hJ"
    "m_checkSum g1 = replicate 16 0"
    by (simp_all add: g1_def GCM_initialized_def GCM_ctor_def GCM_Scope_def)
  define g2 where "g2 = g1\<lparr>m_aadData := a, m_gcmHash := Some h1, m_checkSum := cs1,
            m_aadSize := length a, m_aadLoaded := True\<rparr>"
  have s: "GCM_SetAssociatedData ext g1 a 0 (length a) = Inr g2"
    unfolding g2_def
    by (rule GCM_SetAssociatedData_whole) (use g1f ad in simp_all)
  have g2f: "m_isInitialized g2" "m_isEncryption g2 = enc" "m_gcmHash g2 = Some h1"
    "m_checkSum g2 = cs1"
    "m_cipherMode g2 = \<lparr>ctr_key = key, ctr_vector = BeIncrement8 J0, ctr_isInitialized = True\<rparr>"
    "m_msgSize g2 = 0"
    by (simp_all add: g2_def g1_def GCM_initialized_def GCM_ctor_def GCM_Scope_def)
  have e: "\<forall>k b. length (Engine_Transform ext k b) = 16"
    using ok by (simp add: collaborators_ok_def)
  from spec_buffers_transform [OF e ct, of ip] obtain st1 where
    at: "CTR_TransformAt (Engine_Transform ext)
           \<lparr>ctr_key = key, ctr_vector = BeIncrement8 J0, ctr_isInitialized = True\<rparr>
           (spec_buffers ip x) 0 0 (spec_output ip) 0 (length x) = Inr (c', st1)"
    and out: "buffer_slice (st1 (spec_output ip)) 0 (length x) = y"
    and inp: "buffer_slice (spec_buffers ip x 0) 0 (length x) = x"
    and li: "length (spec_buffers ip x 0) = length x"
    and lo: "length (spec_buffers ip x (spec_output ip)) = length x"
    by blast
  have chk: "length x \<le> min (size_t_sub (length (spec_buffers ip x 0)) 0)
                    (size_t_sub (length (spec_buffers ip x (spec_output ip))) 0)"
    by (rule Transform_size_check) (use li lo len in simp_all)
  define g3 where "g3 = g2\<lparr>m_cipherMode := c', m_gcmHash := Some h2, m_checkSum := cs2,
                   m_msgSize := (m_msgSize g2 + length x) mod 2 ^ 64\<rparr>"
  have t: "GCM_Transform ext g2 (spec_buffers ip x) 0 0 (spec_output ip) 0 (length x)
            = Inr (g3, st1)"
  proof (cases enc)
    case True
    show ?thesis
      unfolding g3_def
      by (rule GCM_Transform_encrypt [where h = h1])
        (use True g2f chk at out up in simp_all)
  next
    case False
    show ?thesis
      unfolding g3_def
      by (rule GCM_Transform_decrypt [where h = h1])
        (use False g2f chk at inp up in simp_all)
  qed
  have ms: "(0 + length x) mod 2 ^ 64 = length x" using len by simp
  have g3f: "m_isInitialized g3 \<and> m_isEncryption g3 = enc \<and> \<not> m_isFinalized g3
    \<and> \<not> m_autoIncrement g3
    \<and> m_gcmHash g3 = Some h2 \<and> m_checkSum g3 = cs2 \<and> m_aadSize g3 = length a
    \<and> m_msgSize g3 = length x
    \<and> m_gcmVector g3 = Engine_Transform ext key J0
    \<and> m_msgTag g3 = replicate 16 0"
    using ms
    by (simp add: g3_def g2_def g1_def GCM_initialized_def GCM_ctor_def GCM_Scope_def)
  show ?thesis
    using i s t out g3f by blast
qed

lemma GCM_reset_state_fields [simp]:
  "m_msgTag (GCM_reset_state ext g h) = m_msgTag g"
  "m_isInitialized (GCM_reset_state ext g h) = False"
  "m_isEncryption (GCM_reset_state ext g h) = m_isEncryption g"
  "m_autoIncrement (GCM_reset_state ext g h) = m_autoIncrement g"
  "m_isFinalized (GCM_reset_state ext g h) = m_isFinalized g"
  by (simp_all add: GCM_reset_state_def)

lemma GCM_Finalize_tag:
  assumes init: "m_isInitialized g" and hash: "m_gcmHash g = Some h"
    and fin: "GHASH_FinalizeBlock ext h (m_checkSum g) (m_aadSize g) (m_msgSize g) = (h1, x)"
    and lens: "length x = 16" "length (m_gcmVector g) = 16" "length (m_msgTag g) = 16"
    and auto: "\<not> m_autoIncrement g"
    and t: "12 \<le> t" "t \<le> 16"
  shows "\<exists>g'. GCM_Finalize ext g (replicate t 0) 0 t
           = Inr (g', take t (map2 (XOR) x (m_gcmVector g)))"
proof -
  note c = GCM_CalculateMac_plain [OF hash fin lens auto]
  have l: "length (map2 (XOR) x (m_gcmVector g)) = 16" using lens by simp
  have cp: "Copy (map2 (XOR) x (m_gcmVector g)) 0 (replicate t 0) 0 t
             = Inr (take t (map2 (XOR) x (m_gcmVector g)))"
    using t l by (simp add: Copy_def)
  show ?thesis
    using init t by (simp add: GCM_Finalize_def c cp)
qed

lemma GCM_Verify_tag:
  assumes init: "m_isInitialized g" and dec: "\<not> m_isEncryption g"
    and nf: "\<not> m_isFinalized g" and hash: "m_gcmHash g = Some h"
    and fin: "GHASH_FinalizeBlock ext h (m_checkSum g) (m_aadSize g) (m_msgSize g) = (h1, x)"
    and lens: "length x = 16" "length (m_gcmVector g) = 16" "length (m_msgTag g) = 16"
    and auto: "\<not> m_autoIncrement g"
    and t: "12 \<le> t" "t \<le> 16" and inp: "Offset + t \<le> length Input"
  shows "\<exists>g'. GCM_Verify ext g Input Offset t
           = Inr (g', take t (map2 (XOR) x (m_gcmVector g)) = buffer_slice Input Offset t)"
proof -
  note c = GCM_CalculateMac_plain [OF hash fin lens auto]
  have l: "length (map2 (XOR) x (m_gcmVector g)) = 16" using lens by simp
  have cp: "Compare (map2 (XOR) x (m_gcmVector g)) 0 Input Offset t
             = Inr (take t (map2 (XOR) x (m_gcmVector g)) = buffer_slice Input Offset t)"
    using t l inp by (simp add: Compare_def buffer_slice_def)
  show ?thesis
    using init dec nf t by (simp add: GCM_Verify_def c cp)
qed

text \<open>
  C1. For every key of a legal size, every nonce the mode accepts (8 bytes or more), all
  associated data \<open>a\<close>, every plaintext \<open>p\<close> and every tag length \<open>t\<close> from 12 to 16:
  on a new instance, \<open>Initialize\<close> for encryption, \<open>SetAssociatedData\<close>, \<open>Transform\<close> and
  \<open>Finalize\<close> succeed and give a ciphertext as long as \<open>p\<close> and a tag of \<open>t\<close> bytes; on
  a new instance initialized for decryption with the same key and nonce, the same
  associated data and that ciphertext, \<open>Transform\<close> gives back \<open>p\<close> and \<open>Verify\<close> on the
  tag returns true. Either transform may work in place or into a second vector.
\<close>

theorem C1_encrypt_decrypt_roundtrip:
  assumes ok: "collaborators_ok ext"
    and key: "key \<noteq> []" "Contains (Engine_LegalKeySizes ext) (length key)"
    and nonce: "8 \<le> length nonce"
    and prof: "profile_accepted po"
    and len: "length p < 2 ^ 64"
    and t: "12 \<le> t" "t \<le> 16"
  shows "\<exists>c tag.
      spec_encrypt ext (GCM_ctor ext po) ip key nonce a p t = Inr (c, tag)
    \<and> length c = length p \<and> length tag = t
    \<and> spec_decrypt ext (GCM_ctor ext po) ip' key nonce a c tag t = Inr (p, True)"
proof -
  let ?E = "Engine_Transform ext"
  obtain hJ J0 where j: "spec_J0 ext (spec_hash_subkey ext key) nonce = (hJ, J0)"
    by (cases "spec_J0 ext (spec_hash_subkey ext key) nonce")
  obtain h1 cs1 where ad: "GHASH_ProcessSegment ext hJ a (replicate 16 0) = (h1, cs1)"
    by (cases "GHASH_ProcessSegment ext hJ a (replicate 16 0)")
  obtain c' c where ct: "CTR_Transform ?E
      \<lparr>ctr_key = key, ctr_vector = BeIncrement8 J0, ctr_isInitialized = True\<rparr> p = (c', c)"
    by (cases "CTR_Transform ?E
      \<lparr>ctr_key = key, ctr_vector = BeIncrement8 J0, ctr_isInitialized = True\<rparr> p")
  obtain h2 cs2 where up: "GHASH_Update ext h1 c cs1 = (h2, cs2)"
    by (cases "GHASH_Update ext h1 c cs1")
  obtain h3 x where fb: "GHASH_FinalizeBlock ext h2 cs2 (length a) (length p) = (h3, x)"
    by (cases "GHASH_FinalizeBlock ext h2 cs2 (length a) (length p)")
  obtain kp where kp: "SymmetricKey_ctor2 key nonce = Inr kp"
    using key(1) by (simp add: SymmetricKey_ctor2_def)
  have e: "\<forall>k b. length (?E k b) = 16"
    using ok by (simp add: collaborators_ok_def)
  have lc: "length c = length p" and ct': "CTR_Transform ?E
      \<lparr>ctr_key = key, ctr_vector = BeIncrement8 J0, ctr_isInitialized = True\<rparr> c = (c', p)"
    using CTR_Transform_involution [OF e ct] by simp_all
  have l1: "length cs1 = 16"
    using collaborators_okD(3) [OF ok, of hJ a "replicate 16 0"] ad by simp
  have l2: "length cs2 = 16"
    using collaborators_okD(2) [OF ok, of h1 c cs1] up l1 by simp
  have lx: "length x = 16"
    using collaborators_okD(4) [OF ok, of h2 cs2 "length a" "length p"] fb l2 by simp
  have lv: "length (?E key J0) = 16" using e by simp
  define tag where "tag = take t (map2 (XOR) x (?E key J0))"
  have lt: "length tag = t" using t lx lv by (simp add: tag_def)
  \<comment> \<open>encryption\<close>
  have upe: "GHASH_Update ext h1 (if True then c else p) cs1 = (h2, cs2)" using up by simp
  from GCM_session [OF ok key nonce prof len j ad ct upe kp, of ip]
  obtain g1 g2 g3 st where enc:
    "GCM_Initialize ext (GCM_ctor ext po) True kp = Inr g1"
    "GCM_SetAssociatedData ext g1 a 0 (length a) = Inr g2"
    "GCM_Transform ext g2 (spec_buffers ip p) 0 0 (spec_output ip) 0 (length p) = Inr (g3, st)"
    "buffer_slice (st (spec_output ip)) 0 (length p) = c"
    and g3: "m_isInitialized g3" "\<not> m_autoIncrement g3"
    "m_gcmHash g3 = Some h2" "m_checkSum g3 = cs2" "m_aadSize g3 = length a"
    "m_msgSize g3 = length p" "m_gcmVector g3 = ?E key J0" "m_msgTag g3 = replicate 16 0"
    by blast
  have "\<exists>g'. GCM_Finalize ext g3 (replicate t 0) 0 t
           = Inr (g', take t (map2 (XOR) x (m_gcmVector g3)))"
    by (rule GCM_Finalize_tag [where h = h2 and ?h1.0 = h3])
      (use g3 fb lx lv t in simp_all)
  then obtain g4 where f: "GCM_Finalize ext g3 (replicate t 0) 0 t = Inr (g4, tag)"
    using g3 by (auto simp add: tag_def)
  have E: "spec_encrypt ext (GCM_ctor ext po) ip key nonce a p t = Inr (c, tag)"
    by (simp add: spec_encrypt_def kp enc f)
  \<comment> \<open>decryption\<close>
  have len': "length c < 2 ^ 64" using len lc by simp
  have upd: "GHASH_Update ext h1 (if False then p else c) cs1 = (h2, cs2)" using up by simp
  from GCM_session [OF ok key nonce prof len' j ad ct' upd kp, of ip']
  obtain d1 d2 d3 dst where dec:
    "GCM_Initialize ext (GCM_ctor ext po) False kp = Inr d1"
    "GCM_SetAssociatedData ext d1 a 0 (length a) = Inr d2"
    "GCM_Transform ext d2 (spec_buffers ip' c) 0 0 (spec_output ip') 0 (length c) = Inr (d3, dst)"
    "buffer_slice (dst (spec_output ip')) 0 (length c) = p"
    and d3: "m_isInitialized d3" "m_isEncryption d3 = False" "\<not> m_isFinalized d3"
    "\<not> m_autoIncrement d3"
    "m_gcmHash d3 = Some h2" "m_checkSum d3 = cs2" "m_aadSize d3 = length a"
    "m_msgSize d3 = length c" "m_gcmVector d3 = ?E key J0" "m_msgTag d3 = replicate 16 0"
    by blast
  have "\<exists>g'. GCM_Verify ext d3 tag 0 t
           = Inr (g', take t (map2 (XOR) x (m_gcmVector d3)) = buffer_slice tag 0 t)"
    by (rule GCM_Verify_tag [where h = h2 and ?h1.0 = h3])
      (use d3 fb lx lv t lc lt in simp_all)
  then obtain d4 where v: "GCM_Verify ext d3 tag 0 t = Inr (d4, True)"
    using d3 lt by (auto simp add: tag_def buffer_slice_def)
  have D: "spec_decrypt ext (GCM_ctor ext po) ip' key nonce a c tag t = Inr (p, True)"
    by (simp add: spec_decrypt_def kp dec v)
  show ?thesis using E D lc lt by blast
qed

lemma example_ext_ok: "collaborators_ok example_ext"
  by (simp add: collaborators_ok_def example_ext_def)

lemma example_profile_accepted: "profile_accepted example_profile"
  by (simp add: profile_accepted_def example_profile_def)

text \<open>
  C4. \<open>Initialize\<close> with a key of a legal size and a nonce of 8 bytes or more succeeds, for
  a 12-byte nonce as for any other length (13 bytes, say). The counter mode is keyed with
  the block \<open>J0\<close>: the nonce followed by \<open>00 00 00 01\<close> when the nonce has 12 bytes, and
  otherwise the GHASH of the nonce under the hash subkey, closed by \<open>FinalizeBlock\<close> with
  the sizes 0 and the nonce length. After \<open>Initialize\<close> the counter stands at \<open>J0 + 1\<close>
  and \<open>m_gcmVector\<close> holds \<open>E_K(J0)\<close>.
\<close>

theorem C4_Initialize_J0:
  assumes ok: "collaborators_ok ext"
    and nonce: "8 \<le> length (m_nonce kp)"
    and key: "m_key kp \<noteq> []"
    and legal: "Contains (m_legalKeySizes (GCM_Scope ext g)) (length (m_key kp))"
    and prof: "profile_accepted (m_parallelProfileG g)"
  shows "\<exists>g' hJ J0.
      GCM_Initialize ext g Encryption kp = Inr g'
    \<and> m_isInitialized g'
    \<and> spec_J0 ext (spec_hash_subkey ext (m_key kp)) (m_nonce kp) = (hJ, J0)
    \<and> J0 = (if length (m_nonce kp) = 12 then m_nonce kp @ [0, 0, 0, 1]
            else snd (GHASH_FinalizeBlock ext
                   (fst (GHASH_ProcessSegment ext (spec_hash_subkey ext (m_key kp))
                           (m_nonce kp) (replicate 16 0)))
                   (snd (GHASH_ProcessSegment ext (spec_hash_subkey ext (m_key kp))
                           (m_nonce kp) (replicate 16 0)))
                   0 (length (m_nonce kp))))
    \<and> m_cipherMode g' =
          \<lparr>ctr_key = m_key kp, ctr_vector = BeIncrement8 J0, ctr_isInitialized = True\<rparr>
    \<and> m_gcmVector g' = Engine_Transform ext (m_key kp) J0
    \<and> m_gcmHash g' = Some hJ"
proof -
  obtain hJ J0 where j: "spec_J0 ext (spec_hash_subkey ext (m_key kp)) (m_nonce kp) = (hJ, J0)"
    by (cases "spec_J0 ext (spec_hash_subkey ext (m_key kp)) (m_nonce kp)")
  define g' where "g' = GCM_initialized (GCM_Scope ext g) Encryption (m_key kp) (m_nonce kp)
                 hJ J0 (Engine_Transform ext (m_key kp) J0)"
  have i: "GCM_Initialize ext g Encryption kp = Inr g'"
    unfolding g'_def by (rule GCM_Initialize_keyed [OF ok nonce key legal prof j])
  have f: "m_isInitialized g'"
    "m_cipherMode g' =
          \<lparr>ctr_key = m_key kp, ctr_vector = BeIncrement8 J0, ctr_isInitialized = True\<rparr>"
    "m_gcmVector g' = Engine_Transform ext (m_key kp) J0" "m_gcmHash g' = Some hJ"
    by (simp_all add: g'_def GCM_initialized_def)
  have J: "J0 = (if length (m_nonce kp) = 12 then m_nonce kp @ [0, 0, 0, 1]
            else snd (GHASH_FinalizeBlock ext
                   (fst (GHASH_ProcessSegment ext (spec_hash_subkey ext (m_key kp))
                           (m_nonce kp) (replicate 16 0)))
                   (snd (GHASH_ProcessSegment ext (spec_hash_subkey ext (m_key kp))
                           (m_nonce kp) (replicate 16 0)))
                   0 (length (m_nonce kp))))"
    using j by (auto simp add: spec_J0_def split: prod.splits)
  show ?thesis using i f j J by blast
qed

theorem C1_encrypt_decrypt_roundtrip_witness:
  "\<exists>c tag. spec_encrypt example_ext (GCM_ctor example_ext example_profile) False
              (replicate 16 1) (replicate 12 2) [3, 4] [5, 6, 7] 12 = Inr (c, tag)
     \<and> spec_decrypt example_ext (GCM_ctor example_ext example_profile) True
              (replicate 16 1) (replicate 12 2) [3, 4] c tag 12 = Inr ([5, 6, 7], True)"
proof -
  have "\<exists>c tag.
      spec_encrypt example_ext (GCM_ctor example_ext example_profile) False
              (replicate 16 1) (replicate 12 2) [3, 4] [5, 6, 7] 12 = Inr (c, tag)
    \<and> length c = length [5, 6, 7 :: byte] \<and> length tag = 12
    \<and> spec_decrypt example_ext (GCM_ctor example_ext example_profile) True
              (replicate 16 1) (replicate 12 2) [3, 4] c tag 12 = Inr ([5, 6, 7], True)"
    by (rule C1_encrypt_decrypt_roundtrip [OF example_ext_ok _ _ _ example_profile_accepted])
      (simp_all add: example_ext_def Contains_def)
  then show ?thesis by blast
qed

theorem C4_Initialize_J0_witness:
  "\<exists>g'. GCM_Initialize example_ext (GCM_ctor example_ext example_profile) True
      \<lparr>m_info = [], m_isDestroyed = False, m_key = replicate 16 1,
        m_keySizes = \<lparr>KeySize = 16, NonceSize = 13, InfoSize = 0\<rparr>,
        m_nonce = replicate 13 2\<rparr> = Inr g'
    \<and> m_isInitialized g' \<and> m_gcmVector g' = replicate 16 0x5A"
proof -
  let ?kp = "\<lparr>m_info = [], m_isDestroyed = False, m_key = replicate 16 1,
        m_keySizes = \<lparr>KeySize = 16, NonceSize = 13, InfoSize = 0\<rparr>,
        m_nonce = replicate 13 2\<rparr> :: SymmetricKey"
  have n: "8 \<le> length (m_nonce ?kp)" and k: "m_key ?kp \<noteq> []" by simp_all
  have l: "Contains (m_legalKeySizes (GCM_Scope example_ext
             (GCM_ctor example_ext example_profile))) (length (m_key ?kp))"
    by (simp add: GCM_ctor_def GCM_Scope_def Contains_def example_ext_def)
  have p: "profile_accepted (m_parallelProfileG (GCM_ctor example_ext example_profile))"
    by (simp add: GCM_ctor_def example_profile_accepted)
  from C4_Initialize_J0 [OF example_ext_ok n k l p, of True]
  obtain g' hJ J0 where
    "GCM_Initialize example_ext (GCM_ctor example_ext example_profile) True ?kp = Inr g'"
    "m_isInitialized g'" "m_gcmVector g' = Engine_Transform example_ext (m_key ?kp) J0"
    by blast
  then show ?thesis by (auto simp add: example_ext_def)
qed

theorem C3_Transform_order_witness:
  "\<exists>g' st'. GCM_Transform example_ext
       ((GCM_ctor example_ext example_profile)\<lparr>m_isInitialized := True, m_gcmHash := Some 0\<rparr>)
       ((\<lambda>_. [])(0 := [1, 2, 3])) 0 0 0 0 3 = Inr (g', st')
     \<and> m_gcmHash g' = Some 3 \<and> m_msgSize g' = 3"
proof -
  let ?g = "(GCM_ctor example_ext example_profile)\<lparr>m_isInitialized := True, m_gcmHash := Some 0\<rparr>"
  let ?st = "(\<lambda>_. [])(0 := [1, 2, 3 :: byte]) :: store"
  have i: "m_isInitialized ?g" and h: "m_gcmHash ?g = Some 0" by simp_all
  have a: "0 + 3 \<le> length (?st 0)" and b: "length (?st 0) < 2 ^ 64" by simp_all
  from C3_Transform_order [where g = ?g and h = 0 and st = ?st and Input = 0 and Output = 0
      and InOffset = 0 and OutOffset = 0 and Length = 3 and ext = example_ext, OF i h a b a b]
  obtain g' st' c' bytes h' where r:
      "GCM_Transform example_ext ?g ?st 0 0 0 0 3 = Inr (g', st')"
      "m_gcmHash g' = Some h'"
      "(h', m_checkSum g') =
        (if m_isEncryption ?g
         then GHASH_Update example_ext 0 (buffer_slice (st' 0) 0 3) (m_checkSum ?g)
         else GHASH_Update example_ext 0 (buffer_slice (?st 0) 0 3) (m_checkSum ?g))"
      "m_msgSize g' = (m_msgSize ?g + 3) mod 2 ^ 64"
    by blast
  have e: "\<not> m_isEncryption ?g" "m_msgSize ?g = 0"
    by (simp_all add: GCM_ctor_def GCM_Scope_def)
  have "h' = 3" using r(3) e by (simp add: example_ext_def buffer_slice_def)
  moreover have "m_msgSize g' = 3" using r(4) e by simp
  ultimately show ?thesis using r(1,2) by blast
qed

subsection \<open>GCM: the instance after Finalize\<close>

lemma ebind_eq_Inr: "ebind m f = Inr y \<Longrightarrow> \<exists>x. m = Inr x \<and> f x = Inr y"
  by (cases m) simp_all

lemma with_gcmHash_eq_Inr:
  "with_gcmHash g f = Inr y \<Longrightarrow> \<exists>h. m_gcmHash g = Some h \<and> f h = Inr y"
  by (cases "m_gcmHash g") simp_all

lemma GCM_Reset_not_initialized:
  assumes "GCM_Reset ext g = Inr g'"
  shows "\<not> m_isInitialized g'" and "m_autoIncrement g' = m_autoIncrement g"
proof -
  have "\<exists>h. m_gcmHash g = Some h"
  proof (cases "m_gcmHash g")
    case None
    then have "GCM_Reset ext g = Inl NullPointer"
      by (simp add: GCM_Reset_def)
    with assms show ?thesis by simp
  next
    case (Some h)
    then show ?thesis by simp
  qed
  then obtain h where "m_gcmHash g = Some h" by blast
  from GCM_Reset_state [OF this, of ext] assms have "g' = GCM_reset_state ext g h" by simp
  then show "\<not> m_isInitialized g'" and "m_autoIncrement g' = m_autoIncrement g" by simp_all
qed

lemma GCM_CalculateMac_not_initialized:
  assumes c: "GCM_CalculateMac ext g = Inr g'" and a: "\<not> m_autoIncrement g"
  shows "\<not> m_isInitialized g'"
proof -
  from c obtain h where h: "m_gcmHash g = Some h" and
    r: "(let (h1, cs) = GHASH_FinalizeBlock ext h (m_checkSum g) (m_aadSize g) (m_msgSize g) in
     ebind (XorBlock (m_gcmVector g) 0 cs 0 16) (\<lambda>cs1.
     ebind (COPY128 cs1 0 (m_msgTag g) 0) (\<lambda>tag.
     ebind (GCM_Reset ext (g\<lparr>m_gcmHash := Some h1, m_checkSum := cs1, m_msgTag := tag\<rparr>))
       (\<lambda>g1.
     ebind (if m_autoIncrement g1
            then
              let tmpN = BeIncrement8 (m_gcmNonce g1); zero = [] in
              ebind (SymmetricKey_ctor2 zero tmpN) (\<lambda>kp.
              ebind (GCM_Initialize ext g1 (m_isEncryption g1) kp) (\<lambda>g2.
              if m_aadPreserve g2
              then with_gcmHash g2 (\<lambda>h2.
                     let (h3, cs3) = GHASH_ProcessSegment ext h2
                            (buffer_slice (m_aadData g2) 0 (length (m_aadData g2)))
                            (m_checkSum g2)
                     in Inr (g2\<lparr>m_gcmHash := Some h3, m_checkSum := cs3\<rparr>))
              else Inr g2))
            else Inr g1) (\<lambda>g3.
     Inr (g3\<lparr>m_isFinalized := True\<rparr>)))))) = Inr g'"
    unfolding GCM_CalculateMac_def by (blast dest: with_gcmHash_eq_Inr)
  obtain h1 cs where f: "GHASH_FinalizeBlock ext h (m_checkSum g) (m_aadSize g) (m_msgSize g) = (h1, cs)"
    by (cases "GHASH_FinalizeBlock ext h (m_checkSum g) (m_aadSize g) (m_msgSize g)")
  from r f obtain cs1 tag g1 g3 where
    reset: "GCM_Reset ext (g\<lparr>m_gcmHash := Some h1, m_checkSum := cs1, m_msgTag := tag\<rparr>) = Inr g1"
    and br: "(if m_autoIncrement g1
            then
              let tmpN = BeIncrement8 (m_gcmNonce g1); zero = [] in
              ebind (SymmetricKey_ctor2 zero tmpN) (\<lambda>kp.
              ebind (GCM_Initialize ext g1 (m_isEncryption g1) kp) (\<lambda>g2.
              if m_aadPreserve g2
              then with_gcmHash g2 (\<lambda>h2.
                     let (h3, cs3) = GHASH_ProcessSegment ext h2
                            (buffer_slice (m_aadData g2) 0 (length (m_aadData g2)))
                            (m_checkSum g2)
                     in Inr (g2\<lparr>m_gcmHash := Some h3, m_checkSum := cs3\<rparr>))
              else Inr g2))
            else Inr g1) = Inr g3"
    and g': "g' = g3\<lparr>m_isFinalized := True\<rparr>"
    by (auto simp only: Let_def prod.case dest!: ebind_eq_Inr)
  from GCM_Reset_not_initialized [OF reset] a have "\<not> m_isInitialized g1" "\<not> m_autoIncrement g1"
    by simp_all
  with br have "g3 = g1" by simp
  with \<open>\<not> m_isInitialized g1\<close> g' show ?thesis by simp
qed

lemma GCM_Finalize_not_initialized:
  assumes "GCM_Finalize ext g Output Offset Length = Inr (g', out)" "\<not> m_autoIncrement g"
  shows "\<not> m_isInitialized g'"
proof -
  from assms(1) obtain g1 where "GCM_CalculateMac ext g = Inr g1" "g' = g1"
    by (auto simp add: GCM_Finalize_def split: if_splits dest!: ebind_eq_Inr)
  with GCM_CalculateMac_not_initialized [OF _ assms(2)] show ?thesis by simp
qed

lemma GCM_call_not_initialized:
  assumes "\<not> m_isInitialized (fst s)"
  shows "\<not> m_isInitialized (fst (GCM_call ext s c))"
proof -
  obtain g st where s: "s = (g, st)" by (cases s)
  with assms have n: "\<not> m_isInitialized g" by simp
  show ?thesis
  proof (cases c)
    case (Call_Verify Input Offset Length)
    show ?thesis
    proof (cases "m_isFinalized g")
      case True
      then show ?thesis
        using n s Call_Verify
        by (auto simp add: GCM_Verify_def split: sum.splits dest!: ebind_eq_Inr)
    next
      case False
      then show ?thesis
        using n s Call_Verify by (simp add: GCM_Verify_def)
    qed
  qed (use n s in \<open>simp_all add: GCM_SetAssociatedData_def GCM_Transform_def GCM_Encrypt128_def
        GCM_Decrypt128_def GCM_Finalize_def GCM_ParallelMaxDegree_def\<close>)
qed

lemma GCM_calls_not_initialized:
  "\<not> m_isInitialized (fst s) \<Longrightarrow> \<not> m_isInitialized (fst (foldl (GCM_call ext) s calls))"
proof (induction calls arbitrary: s)
  case Nil
  then show ?case by simp
next
  case (Cons c calls)
  from Cons.prems have "\<not> m_isInitialized (fst (GCM_call ext s c))"
    by (rule GCM_call_not_initialized)
  then show ?case using Cons.IH by simp
qed

lemma GCM_Initialize_counter_initialized:
  assumes "GCM_Initialize_counter ext g = Inr g'"
  shows "m_isInitialized g'"
  using assms
  by (auto simp add: GCM_Initialize_counter_def Let_def ebind_def
      split: sum.splits prod.splits if_splits)

lemma GCM_Initialize_initialized:
  assumes "GCM_Initialize ext g Encryption kp = Inr g'"
  shows "m_isInitialized g'"
proof -
  from assms have "\<exists>g2. GCM_Initialize_counter ext g2 = Inr g'"
    unfolding GCM_Initialize_def Let_def
    by (auto split: if_splits dest!: ebind_eq_Inr)
  then show ?thesis by (blast dest: GCM_Initialize_counter_initialized)
qed

lemma GCM_Transform_assertions_pass:
  assumes init: "m_isInitialized g"
    and inp: "InOffset + Length \<le> length (st Input)" "length (st Input) < 2 ^ 64"
    and outp: "OutOffset + Length \<le> length (st Output)" "length (st Output) < 2 ^ 64"
  shows "GCM_Transform ext g st Input InOffset Output OutOffset Length \<noteq> Inl AssertionFailure"
proof -
  note chk = Transform_size_check [OF inp outp]
  obtain c' bytes where ct: "CTR_Transform (Engine_Transform ext) (m_cipherMode g)
          (buffer_slice (st Input) InOffset Length) = (c', bytes)"
    by (cases "CTR_Transform (Engine_Transform ext) (m_cipherMode g)
          (buffer_slice (st Input) InOffset Length)")
  have at: "CTR_TransformAt (Engine_Transform ext) (m_cipherMode g) st
                Input InOffset Output OutOffset Length
            = Inr (c', st(Output := buffer_write (st Output) OutOffset bytes))"
    using inp(1) outp(1) ct by (simp add: CTR_TransformAt_def)
  show ?thesis
  proof (cases "m_gcmHash g")
    case None
    then show ?thesis
      using init chk at by (simp add: GCM_Transform_def)
  next
    case (Some h)
    then show ?thesis
      using init chk at by (simp add: GCM_Transform_def split: prod.splits)
  qed
qed

text \<open>
  C2. After a \<open>Finalize\<close> that completed with auto-increment off, whatever calls other
  than \<open>Initialize\<close> are made on the instance, \<open>Transform\<close> fails on its first assertion
  (the instance is not initialized). Once \<open>Initialize\<close> has succeeded again the instance
  is initialized, and a \<open>Transform\<close> within the bounds of its vectors passes the
  assertions.
\<close>

theorem C2_Transform_after_Finalize:
  assumes fin: "GCM_Finalize ext g Output Offset Length = Inr (g', out)"
    and auto: "\<not> m_autoIncrement g"
  shows "GCM_Transform ext (fst (foldl (GCM_call ext) (g', st) calls))
           st' Input InOffset Output' OutOffset n = Inl AssertionFailure
       \<and> (\<forall>Encryption kp g2.
            GCM_Initialize ext (fst (foldl (GCM_call ext) (g', st) calls)) Encryption kp = Inr g2
            \<longrightarrow> m_isInitialized g2
              \<and> (InOffset + n \<le> length (st' Input) \<and> length (st' Input) < 2 ^ 64
                 \<and> OutOffset + n \<le> length (st' Output') \<and> length (st' Output') < 2 ^ 64
                 \<longrightarrow> GCM_Transform ext g2 st' Input InOffset Output' OutOffset n
                       \<noteq> Inl AssertionFailure))"
proof -
  have "\<not> m_isInitialized g'"
    by (rule GCM_Finalize_not_initialized [OF fin auto])
  then have "\<not> m_isInitialized (fst (g', st))" by simp
  then have "\<not> m_isInitialized (fst (foldl (GCM_call ext) (g', st) calls))"
    by (rule GCM_calls_not_initialized)
  then have a: "GCM_Transform ext (fst (foldl (GCM_call ext) (g', st) calls))
           st' Input InOffset Output' OutOffset n = Inl AssertionFailure"
    by (simp add: GCM_Transform_def)
  have b: "\<And>Encryption kp g2.
      GCM_Initialize ext (fst (foldl (GCM_call ext) (g', st) calls)) Encryption kp = Inr g2
      \<Longrightarrow> m_isInitialized g2"
    by (rule GCM_Initialize_initialized)
  have c: "\<And>g2. m_isInitialized g2 \<Longrightarrow>
      InOffset + n \<le> length (st' Input) \<and> length (st' Input) < 2 ^ 64
                 \<and> OutOffset + n \<le> length (st' Output') \<and> length (st' Output') < 2 ^ 64
      \<Longrightarrow> GCM_Transform ext g2 st' Input InOffset Output' OutOffset n \<noteq> Inl AssertionFailure"
    by (rule GCM_Transform_assertions_pass) simp_all
  show ?thesis
    using a b c by blast
qed

theorem C2_Transform_after_Finalize_witness:
  "\<exists>g1 g' out.
     GCM_Initialize example_ext (GCM_ctor example_ext example_profile) True
        \<lparr>m_info = [], m_isDestroyed = False, m_key = replicate 16 1,
          m_keySizes = \<lparr>KeySize = 16, NonceSize = 12, InfoSize = 0\<rparr>,
          m_nonce = replicate 12 2\<rparr> = Inr g1
   \<and> GCM_Finalize example_ext g1 (replicate 12 0) 0 12 = Inr (g', out)
   \<and> GCM_Transform example_ext
        (fst (foldl (GCM_call example_ext) (g', (\<lambda>_. [])(0 := [1, 2, 3]))
               [Call_Verify out 0 12, Call_AutoIncrement True, Call_Transform 0 0 0 0 3]))
        ((\<lambda>_. [])(0 := [1, 2, 3])) 0 0 0 0 3 = Inl AssertionFailure"
proof -
  let ?g0 = "GCM_ctor example_ext example_profile :: nat GCM"
  let ?kp = "\<lparr>m_info = [], m_isDestroyed = False, m_key = replicate 16 1,
        m_keySizes = \<lparr>KeySize = 16, NonceSize = 12, InfoSize = 0\<rparr>,
        m_nonce = replicate 12 2\<rparr> :: SymmetricKey"
  obtain hJ J0 where
    j: "spec_J0 example_ext (spec_hash_subkey example_ext (m_key ?kp)) (m_nonce ?kp) = (hJ, J0)"
    by (cases "spec_J0 example_ext (spec_hash_subkey example_ext (m_key ?kp)) (m_nonce ?kp)")
  let ?g1 = "GCM_initialized (GCM_Scope example_ext ?g0) True (m_key ?kp) (m_nonce ?kp) hJ J0
                (Engine_Transform example_ext (m_key ?kp) J0)"
  have n: "8 \<le> length (m_nonce ?kp)" and k: "m_key ?kp \<noteq> []" by simp_all
  have l: "Contains (m_legalKeySizes (GCM_Scope example_ext ?g0)) (length (m_key ?kp))"
    by (simp add: GCM_ctor_def GCM_Scope_def Contains_def example_ext_def)
  have p: "profile_accepted (m_parallelProfileG ?g0)"
    by (simp add: GCM_ctor_def example_profile_accepted)
  have i: "GCM_Initialize example_ext ?g0 True ?kp = Inr ?g1"
    by (rule GCM_Initialize_keyed [OF example_ext_ok n k l p j])
  have a: "\<not> m_autoIncrement ?g1"
    by (simp add: GCM_initialized_def GCM_ctor_def GCM_Scope_def)
  obtain h1 x where
    fb: "GHASH_FinalizeBlock example_ext hJ (m_checkSum ?g1) (m_aadSize ?g1) (m_msgSize ?g1)
         = (h1, x)"
    by (cases "GHASH_FinalizeBlock example_ext hJ (m_checkSum ?g1) (m_aadSize ?g1)
                 (m_msgSize ?g1)")
  have lx: "length x = 16"
    using collaborators_okD(4) [OF example_ext_ok, of hJ "m_checkSum ?g1" "m_aadSize ?g1"
        "m_msgSize ?g1"] fb
    by (simp add: GCM_initialized_def GCM_ctor_def GCM_Scope_def)
  have "\<exists>g'. GCM_Finalize example_ext ?g1 (replicate 12 0) 0 12
           = Inr (g', take 12 (map2 (XOR) x (m_gcmVector ?g1)))"
    by (rule GCM_Finalize_tag [OF _ _ fb lx _ _ a])
      (simp_all add: GCM_initialized_def GCM_ctor_def GCM_Scope_def example_ext_def)
  then obtain g' out where
    f: "GCM_Finalize example_ext ?g1 (replicate 12 0) 0 12 = Inr (g', out)"
    by blast
  from C2_Transform_after_Finalize [OF f a]
  have "GCM_Transform example_ext
        (fst (foldl (GCM_call example_ext) (g', (\<lambda>_. [])(0 := [1, 2, 3]))
               [Call_Verify out 0 12, Call_AutoIncrement True, Call_Transform 0 0 0 0 3]))
        ((\<lambda>_. [])(0 := [1, 2, 3])) 0 0 0 0 3 = Inl AssertionFailure"
    by blast
  with i f show ?thesis by blast
qed

subsection \<open>GCM: Verify and Finalize\<close>















lemma length_LeIncrementBytes [simp]: "length (LeIncrementBytes xs) = length xs"
  by (induction xs) simp_all

lemma LeIncrementBytes_neq: "xs \<noteq> [] \<Longrightarrow> LeIncrementBytes xs \<noteq> xs"
proof (cases xs)
  case Nil
  assume "xs \<noteq> []"
  with Nil show ?thesis by simp
next
  case (Cons b bs)
  show ?thesis
  proof (cases "b + 1 = 0")
    case True
    then have "b \<noteq> 0" by auto
    with Cons True show ?thesis by auto
  next
    case False
    with Cons show ?thesis by simp
  qed
qed

lemma length_BeIncrement8 [simp]: "length (BeIncrement8 xs) = length xs"
  by (simp add: BeIncrement8_def)

lemma BeIncrement8_neq: "xs \<noteq> [] \<Longrightarrow> BeIncrement8 xs \<noteq> xs"
proof
  assume ne: "xs \<noteq> []" and eq: "BeIncrement8 xs = xs"
  from eq have "rev (rev (LeIncrementBytes (rev xs))) = rev xs"
    by (simp only: BeIncrement8_def)
  then have "LeIncrementBytes (rev xs) = rev xs" by simp
  moreover from ne have "rev xs \<noteq> []" by simp
  ultimately show False using LeIncrementBytes_neq by blast
qed

lemma GCM_Initialize_rekey:
  assumes ok: "collaborators_ok ext"
    and key: "m_key kp = []"
    and nonce: "8 \<le> length (m_nonce kp)"
    and fresh: "m_nonce kp \<noteq> m_gcmNonce g"
    and ctr: "ctr_isInitialized (m_cipherMode g)"
    and prof: "profile_accepted (m_parallelProfileG g)"
    and hash: "m_gcmHash g = Some h"
    and j: "spec_J0 ext h (m_nonce kp) = (hJ, J0)"
  shows "GCM_Initialize ext g Encryption kp =
         Inr (GCM_initialized (GCM_Scope ext g) Encryption (m_gcmKey g) (m_nonce kp) hJ J0
                (Engine_Transform ext (m_gcmKey g) J0))"
proof -
  let ?g1 = "GCM_Scope ext g"
  let ?g1' = "?g1\<lparr>m_isEncryption := Encryption, m_gcmNonce := m_nonce kp,
                 m_gcmVector := m_nonce kp\<rparr>"
  let ?g2 = "?g1'\<lparr>m_gcmHash := Some hJ, m_gcmVector := J0\<rparr>"
  have kpart: "GCM_Initialize_key ext (GCM_Scope ext g) kp = Inr ?g1"
    using key fresh ctr by (simp add: GCM_Initialize_key_def)
  have v: "GCM_Initialize_vector ext ?g1' = Inr ?g2"
    by (rule GCM_Initialize_vector_spec [where h = h]) (use j hash in simp_all)
  have l: "length J0 = 16" by (rule spec_J0_length [OF ok j nonce])
  have c: "GCM_Initialize_counter ext ?g2 =
        Inr (GCM_initialized (GCM_Scope ext g) Encryption (m_gcmKey g) (m_nonce kp) hJ J0
                (Engine_Transform ext (m_gcmKey g) J0))"
    using l collaborators_okD(1) [OF ok, of "m_gcmKey g" J0]
    by (simp add: GCM_Initialize_counter_block GCM_initialized_def)
  have "GCM_Initialize ext g Encryption kp =
        ebind (GCM_Initialize_key ext (GCM_Scope ext g) kp) (\<lambda>g1.
        ebind (GCM_Initialize_vector ext
                 (g1\<lparr>m_isEncryption := Encryption, m_gcmNonce := m_nonce kp,
                     m_gcmVector := m_nonce kp\<rparr>)) (\<lambda>g2.
        GCM_Initialize_counter ext g2))"
    unfolding GCM_Initialize_def Let_def
    using nonce profile_accepted_checks [OF prof]
    by (simp only: GCM_Scope_fields if_False not_less [symmetric] not_False_eq_True)
  also have "\<dots> = ebind (GCM_Initialize_vector ext ?g1') (\<lambda>g2. GCM_Initialize_counter ext g2)"
    by (simp only: kpart ebind_Inr)
  also have "\<dots> = GCM_Initialize_counter ext ?g2"
    by (simp only: v ebind_Inr)
  finally show ?thesis by (simp only: c)
qed

lemma GCM_reabsorb:
  assumes "m_gcmHash g2 = Some h2"
  shows "\<exists>g3. (if m_aadPreserve g2
              then with_gcmHash g2 (\<lambda>h2.
                     case GHASH_ProcessSegment ext h2
                            (buffer_slice (m_aadData g2) 0 (length (m_aadData g2)))
                            (m_checkSum g2) of
                       (h3, cs3) \<Rightarrow> Inr (g2\<lparr>m_gcmHash := Some h3, m_checkSum := cs3\<rparr>))
              else Inr g2) = Inr g3
            \<and> m_msgTag g3 = m_msgTag g2
            \<and> m_isInitialized g3 = m_isInitialized g2
            \<and> m_isEncryption g3 = m_isEncryption g2
            \<and> m_gcmVector g3 = m_gcmVector g2
            \<and> m_gcmHash g3 \<noteq> None
            \<and> (\<not> m_aadPreserve g2 \<longrightarrow> m_checkSum g3 = m_checkSum g2)"
  using assms by (auto split: prod.splits)

lemma GCM_CalculateMac_autoIncrement:
  assumes ok: "collaborators_ok ext"
    and hash: "m_gcmHash g = Some h"
    and fin: "GHASH_FinalizeBlock ext h (m_checkSum g) (m_aadSize g) (m_msgSize g) = (h1, x)"
    and lens: "length x = 16" "length (m_gcmVector g) = 16" "length (m_msgTag g) = 16"
    and auto: "m_autoIncrement g"
    and nonce: "8 \<le> length (m_gcmNonce g)"
    and ctr: "ctr_isInitialized (m_cipherMode g)"
    and prof: "profile_accepted (m_parallelProfileG g)"
    and nf: "\<not> m_isFinalized g"
  shows "\<exists>g'. GCM_CalculateMac ext g = Inr g'
            \<and> m_msgTag g' = map2 (XOR) x (m_gcmVector g)
            \<and> m_isFinalized g' \<and> m_isInitialized g'
            \<and> m_isEncryption g' = m_isEncryption g
            \<and> m_gcmHash g' \<noteq> None
            \<and> m_gcmVector g'
                = Engine_Transform ext (m_gcmKey g)
                    (snd (spec_J0 ext (GHASH_Reset ext h1) (BeIncrement8 (m_gcmNonce g))))
            \<and> (\<not> m_aadPreserve g \<longrightarrow> m_checkSum g' = replicate 16 0)"
proof -
  let ?t = "map2 (XOR) x (m_gcmVector g)"
  let ?gA = "g\<lparr>m_gcmHash := Some h1, m_checkSum := ?t, m_msgTag := ?t\<rparr>"
  let ?g1 = "GCM_reset_state ext ?gA h1"
  let ?N = "BeIncrement8 (m_gcmNonce ?g1)"
  let ?kp = "\<lparr>m_info = [], m_isDestroyed = False, m_key = [],
        m_keySizes = \<lparr>KeySize = length ([] :: byte list), NonceSize = length ?N, InfoSize = 0\<rparr>,
        m_nonce = ?N\<rparr>"
  have x: "XorBlock (m_gcmVector g) 0 x 0 16 = Inr ?t"
    using lens by (simp add: XorBlock_whole)
  have c: "COPY128 ?t 0 (m_msgTag g) 0 = Inr ?t"
    using lens by (simp add: COPY128_def Copy_whole)
  have r: "GCM_Reset ext ?gA = Inr ?g1"
    by (rule GCM_Reset_state) simp
  have a: "m_autoIncrement ?g1"
    using auto by simp
  have n1: "m_gcmNonce ?g1 = m_gcmNonce g"
    by (simp add: GCM_reset_state_def)
  have k: "SymmetricKey_ctor2 [] ?N = Inr ?kp"
    using nonce by (auto simp add: SymmetricKey_ctor2_def n1)
  obtain hJ J0 where j: "spec_J0 ext (GHASH_Reset ext h1) (m_nonce ?kp) = (hJ, J0)"
    by (cases "spec_J0 ext (GHASH_Reset ext h1) (m_nonce ?kp)")
  let ?g2 = "GCM_initialized (GCM_Scope ext ?g1) (m_isEncryption ?g1) (m_gcmKey ?g1)
               (m_nonce ?kp) hJ J0 (Engine_Transform ext (m_gcmKey ?g1) J0)"
  have ne: "m_gcmNonce g \<noteq> []"
  proof
    assume "m_gcmNonce g = []"
    with nonce show False by simp
  qed
  have i: "GCM_Initialize ext ?g1 (m_isEncryption ?g1) ?kp = Inr ?g2"
  proof (rule GCM_Initialize_rekey [OF ok _ _ _ _ _ _ j])
    show "m_key ?kp = []" by simp
    show "8 \<le> length (m_nonce ?kp)" using nonce by (simp add: n1)
    show "m_nonce ?kp \<noteq> m_gcmNonce ?g1" using BeIncrement8_neq [OF ne] by (simp add: n1)
    show "ctr_isInitialized (m_cipherMode ?g1)" using ctr by (simp add: GCM_reset_state_def)
    show "profile_accepted (m_parallelProfileG ?g1)" using prof by (simp add: GCM_reset_state_def)
    show "m_gcmHash ?g1 = Some (GHASH_Reset ext h1)" by (simp add: GCM_reset_state_def)
  qed
  have h2: "m_gcmHash ?g2 = Some hJ" by (simp add: GCM_initialized_def)
  have t2: "m_msgTag ?g2 = ?t" using nf by (simp add: GCM_initialized_def GCM_Scope_def)
  from GCM_reabsorb [OF h2, of ext] obtain g3 where
    g3: "(if m_aadPreserve ?g2
              then with_gcmHash ?g2 (\<lambda>h2.
                     case GHASH_ProcessSegment ext h2
                            (buffer_slice (m_aadData ?g2) 0 (length (m_aadData ?g2)))
                            (m_checkSum ?g2) of
                       (h3, cs3) \<Rightarrow> Inr (?g2\<lparr>m_gcmHash := Some h3, m_checkSum := cs3\<rparr>))
              else Inr ?g2) = Inr g3" and t3: "m_msgTag g3 = m_msgTag ?g2"
    and i3: "m_isInitialized g3 = m_isInitialized ?g2"
    and e3: "m_isEncryption g3 = m_isEncryption ?g2"
    and v3: "m_gcmVector g3 = m_gcmVector ?g2"
    and h3: "m_gcmHash g3 \<noteq> None"
    and c3: "\<not> m_aadPreserve ?g2 \<longrightarrow> m_checkSum g3 = m_checkSum ?g2"
    by blast
  have f2: "m_isInitialized ?g2" "m_isEncryption ?g2 = m_isEncryption g"
    by (simp_all add: GCM_initialized_def)
  have j0: "snd (spec_J0 ext (GHASH_Reset ext h1) (BeIncrement8 (m_gcmNonce g))) = J0"
    using j by (simp add: n1)
  have v2: "m_gcmVector ?g2 = Engine_Transform ext (m_gcmKey g) J0"
    by (simp add: GCM_initialized_def GCM_reset_state_def)
  have c2: "m_aadPreserve ?g2 = m_aadPreserve g" "m_checkSum ?g2 = replicate 16 0"
    using lens by (simp_all add: GCM_initialized_def GCM_reset_state_def GCM_Scope_def)
  have "GCM_CalculateMac ext g = Inr (g3\<lparr>m_isFinalized := True\<rparr>)"
    unfolding GCM_CalculateMac_def
    by (simp only: with_gcmHash_Some [OF hash] fin Let_def prod.case x c r ebind_Inr a if_True
        k i g3)
  then show ?thesis using t3 t2 i3 e3 f2 v3 h3 c3 v2 c2 j0 by simp
qed

lemma spec_tag_length:
  assumes ok: "collaborators_ok ext" and wf: "GCM_wellformed g" and init: "m_isInitialized g"
  shows "length (spec_tag ext g) = 16"
proof -
  from wf init obtain h where hash: "m_gcmHash g = Some h"
    and lens: "length (m_gcmVector g) = 16" "length (m_checkSum g) = 16"
    by (auto simp add: GCM_wellformed_def)
  show ?thesis
    using hash lens collaborators_okD(4) [OF ok, of h "m_checkSum g" "m_aadSize g" "m_msgSize g"]
    by (simp add: spec_tag_def)
qed

lemma GCM_CalculateMac_tag:
  assumes ok: "collaborators_ok ext" and wf: "GCM_wellformed g"
    and init: "m_isInitialized g" and nf: "\<not> m_isFinalized g"
  shows "\<exists>g'. GCM_CalculateMac ext g = Inr g' \<and> m_msgTag g' = spec_tag ext g
            \<and> m_isFinalized g' \<and> m_isInitialized g' = m_autoIncrement g
            \<and> m_isEncryption g' = m_isEncryption g"
proof -
  from wf init obtain h where hash: "m_gcmHash g = Some h"
    and lens: "length (m_gcmVector g) = 16" "length (m_msgTag g) = 16"
      "length (m_checkSum g) = 16"
    and nonce: "8 \<le> length (m_gcmNonce g)"
    and ctr: "ctr_isInitialized (m_cipherMode g)"
    and prof: "profile_accepted (m_parallelProfileG g)"
    by (auto simp add: GCM_wellformed_def)
  obtain h1 x where
    fin: "GHASH_FinalizeBlock ext h (m_checkSum g) (m_aadSize g) (m_msgSize g) = (h1, x)"
    by (cases "GHASH_FinalizeBlock ext h (m_checkSum g) (m_aadSize g) (m_msgSize g)")
  have lx: "length x = 16"
    using collaborators_okD(4) [OF ok, of h "m_checkSum g" "m_aadSize g" "m_msgSize g"] fin lens
    by simp
  have tag: "spec_tag ext g = map2 (XOR) x (m_gcmVector g)"
    using hash fin by (simp add: spec_tag_def)
  show ?thesis
  proof (cases "m_autoIncrement g")
    case True
    from GCM_CalculateMac_autoIncrement [OF ok hash fin lx lens(1) lens(2) True nonce ctr prof nf]
    show ?thesis unfolding tag using True by blast
  next
    case False
    from GCM_CalculateMac_plain [OF hash fin lx lens(1) lens(2) False] False
    show ?thesis by (simp add: tag GCM_reset_state_def)
  qed
qed

lemma GCM_Verify_finalized:
  assumes fin: "m_isFinalized g" and dec: "\<not> m_isEncryption g"
    and l: "length (m_msgTag g) = 16"
    and t: "12 \<le> Length" "Length \<le> 16" and inp: "Offset + Length \<le> length Input"
  shows "GCM_Verify ext g Input Offset Length
           = Inr (g, buffer_slice (m_msgTag g) 0 Length = buffer_slice Input Offset Length)"
proof -
  have "Compare (m_msgTag g) 0 Input Offset Length
      = Inr (buffer_slice (m_msgTag g) 0 Length = buffer_slice Input Offset Length)"
    using t inp l by (simp add: Compare_def)
  then show ?thesis
    using fin dec t by (simp add: GCM_Verify_def)
qed

lemma GCM_Verify_Inr:
  assumes "\<not> m_isEncryption g" "m_isInitialized g" "\<not> m_isFinalized g"
    and "12 \<le> Length" "Length \<le> 16"
    and "GCM_CalculateMac ext g = Inr g'"
    and "Compare (m_msgTag g') 0 Input Offset Length = Inr b"
  shows "GCM_Verify ext g Input Offset Length = Inr (g', b)"
  using assms by (simp add: GCM_Verify_def)

lemma GCM_Verify_computes:
  assumes ok: "collaborators_ok ext" and wf: "GCM_wellformed g"
    and dec: "\<not> m_isEncryption g" and init: "m_isInitialized g" and nf: "\<not> m_isFinalized g"
    and t: "12 \<le> Length" "Length \<le> 16" and inp: "Offset + Length \<le> length Input"
  shows "\<exists>g'. GCM_Verify ext g Input Offset Length
           = Inr (g', buffer_slice (spec_tag ext g) 0 Length = buffer_slice Input Offset Length)
         \<and> m_msgTag g' = spec_tag ext g \<and> m_isFinalized g'
         \<and> m_isInitialized g' = m_autoIncrement g \<and> \<not> m_isEncryption g'"
proof -
  from GCM_CalculateMac_tag [OF ok wf init nf] obtain g' where
    c: "GCM_CalculateMac ext g = Inr g'" and tag: "m_msgTag g' = spec_tag ext g"
    and f: "m_isFinalized g'" "m_isInitialized g' = m_autoIncrement g"
      "m_isEncryption g' = m_isEncryption g"
    by blast
  have "length (spec_tag ext g) = 16" by (rule spec_tag_length [OF ok wf init])
  then have "Compare (spec_tag ext g) 0 Input Offset Length
      = Inr (buffer_slice (spec_tag ext g) 0 Length = buffer_slice Input Offset Length)"
    using t inp by (simp add: Compare_def)
  then have "GCM_Verify ext g Input Offset Length
           = Inr (g', buffer_slice (spec_tag ext g) 0 Length = buffer_slice Input Offset Length)"
    using nf init dec t by (simp add: GCM_Verify_def c tag)
  with tag f dec show ?thesis by simp
qed

lemma GCM_Transform_keeps_tag:
  assumes "GCM_Transform ext g st Input InOffset Output OutOffset Length = Inr (g2, st2)"
  shows "m_msgTag g2 = m_msgTag g" and "m_isFinalized g2 = m_isFinalized g"
    and "m_isEncryption g2 = m_isEncryption g" and "m_isInitialized g"
  using assms
  by (auto simp add: GCM_Transform_def CEXASSERT_def with_gcmHash_def
      split: if_splits option.splits prod.splits dest!: ebind_eq_Inr)

text \<open>
  A slip of the source. With auto-increment on, \<open>CalculateMac\<close> sets \<open>m_isFinalized\<close>
  after it has initialized the instance for the next nonce, so the instance is left both
  initialized and finalized. \<open>Verify\<close> for the next message then skips \<open>CalculateMac\<close>
  and compares with the tag of the message before: whatever was transformed in between,
  the expected bytes are accepted when they are the old tag.
\<close>

lemma GCM_Verify_after_auto_increment:
  assumes ok: "collaborators_ok ext" and wf: "GCM_wellformed g"
    and dec: "\<not> m_isEncryption g" and init: "m_isInitialized g" and nf: "\<not> m_isFinalized g"
    and auto: "m_autoIncrement g"
    and t: "12 \<le> Length" "Length \<le> 16" and inp: "Offset + Length \<le> length Input"
    and v: "GCM_Verify ext g Input Offset Length = Inr (g1, b)"
    and tr: "GCM_Transform ext g1 st Input1 InOffset Output1 OutOffset n = Inr (g2, st2)"
    and t2: "12 \<le> Length2" "Length2 \<le> 16" and inp2: "Offset2 + Length2 \<le> length Input2"
  shows "m_isInitialized g1 \<and> m_isFinalized g1"
    and "GCM_Verify ext g2 Input2 Offset2 Length2
           = Inr (g2, buffer_slice (spec_tag ext g) 0 Length2
                        = buffer_slice Input2 Offset2 Length2)"
proof -
  from GCM_Verify_computes [OF ok wf dec init nf t inp] v
  have f1: "m_msgTag g1 = spec_tag ext g" "m_isFinalized g1" "m_isInitialized g1"
    "\<not> m_isEncryption g1"
    using auto by auto
  then show "m_isInitialized g1 \<and> m_isFinalized g1" by simp
  note k = GCM_Transform_keeps_tag [OF tr]
  have l: "length (m_msgTag g2) = 16"
    using k(1) f1(1) spec_tag_length [OF ok wf init] by simp
  from GCM_Verify_finalized [OF _ _ l t2 inp2, of ext] k f1
  show "GCM_Verify ext g2 Input2 Offset2 Length2
           = Inr (g2, buffer_slice (spec_tag ext g) 0 Length2
                        = buffer_slice Input2 Offset2 Length2)"
    by simp
qed

lemma GCM_ctor_wellformed: "GCM_wellformed (GCM_ctor ext profile)"
  by (simp add: GCM_wellformed_def GCM_ctor_def GCM_Scope_def)





lemma example_counter_ext_ok: "collaborators_ok example_counter_ext"
  by (simp add: collaborators_ok_def example_counter_ext_def example_ext_def min_def)

text \<open>
  The slip at work. Auto-increment is switched on, the instance is initialized for
  decryption with a 12-byte nonce and \<open>Verify\<close> accepts the tag of the (empty) first
  message. Three bytes of a second message are then transformed. \<open>Verify\<close> now refuses the
  tag of section 4.D for the second message and accepts the tag of the first.
\<close>

lemma GCM_Verify_after_auto_increment_example:
  "\<exists>g1 g2 g3 st.
     GCM_Initialize example_counter_ext
        ((GCM_ctor example_counter_ext example_profile)\<lparr>m_autoIncrement := True\<rparr>) False
        \<lparr>m_info = [], m_isDestroyed = False, m_key = replicate 16 1,
          m_keySizes = \<lparr>KeySize = 16, NonceSize = 12, InfoSize = 0\<rparr>,
          m_nonce = replicate 12 2\<rparr> = Inr g1
   \<and> GCM_Verify example_counter_ext g1 (replicate 12 2 @ [0, 0, 0, 1]) 0 16 = Inr (g2, True)
   \<and> m_isInitialized g2 \<and> m_isFinalized g2
   \<and> GCM_Transform example_counter_ext g2 ((\<lambda>_. [])(0 := [7, 8, 9])) 0 0 0 0 3 = Inr (g3, st)
   \<and> length (spec_tag example_counter_ext g3) = 16
   \<and> GCM_Verify example_counter_ext g3 (spec_tag example_counter_ext g3) 0 16
       = Inr (g3, False)
   \<and> GCM_Verify example_counter_ext g3 (replicate 12 2 @ [0, 0, 0, 1]) 0 16
       = Inr (g3, True)"
proof -
  let ?E = "example_counter_ext"
  let ?N = "replicate 12 2 :: byte list"
  let ?J = "?N @ [0, 0, 0, 1]"
  let ?g0 = "(GCM_ctor ?E example_profile)\<lparr>m_autoIncrement := True\<rparr> :: nat GCM"
  let ?kp = "\<lparr>m_info = [], m_isDestroyed = False, m_key = replicate 16 1,
        m_keySizes = \<lparr>KeySize = 16, NonceSize = 12, InfoSize = 0\<rparr>,
        m_nonce = ?N\<rparr> :: SymmetricKey"
  note ok = example_counter_ext_ok
  have E: "\<And>k b. length b = 16 \<Longrightarrow> Engine_Transform ?E k b = b"
    by (simp add: example_counter_ext_def)
  have F: "\<And>h c a m. GHASH_FinalizeBlock ?E h c a m = (h, c)"
    and U: "\<And>h d c. GHASH_Update ?E h d c = (h + length d, c)"
    by (simp_all add: example_counter_ext_def example_ext_def)
  have J12: "\<And>h M. length M = 12 \<Longrightarrow> spec_J0 ?E h M = (h, M @ [0, 0, 0, 1])"
    by (simp add: spec_J0_def)
  have j: "spec_J0 ?E (spec_hash_subkey ?E (m_key ?kp)) (m_nonce ?kp)
           = (spec_hash_subkey ?E (m_key ?kp), ?J)"
    by (simp add: J12)
  let ?g1 = "GCM_initialized (GCM_Scope ?E ?g0) False (m_key ?kp) (m_nonce ?kp)
                (spec_hash_subkey ?E (m_key ?kp)) ?J (Engine_Transform ?E (m_key ?kp) ?J)"
  have n: "8 \<le> length (m_nonce ?kp)" and k: "m_key ?kp \<noteq> []" by simp_all
  have l: "Contains (m_legalKeySizes (GCM_Scope ?E ?g0)) (length (m_key ?kp))"
    by (simp add: GCM_ctor_def GCM_Scope_def Contains_def example_counter_ext_def example_ext_def)
  have p: "profile_accepted (m_parallelProfileG ?g0)"
    by (simp add: GCM_ctor_def example_profile_accepted)
  have i: "GCM_Initialize ?E ?g0 False ?kp = Inr ?g1"
    by (rule GCM_Initialize_keyed [OF ok n k l p j])
  have EJ: "Engine_Transform ?E (m_key ?kp) ?J = ?J" by (rule E) simp
  have f1: "m_gcmHash ?g1 = Some (spec_hash_subkey ?E (m_key ?kp))"
    "m_gcmVector ?g1 = ?J" "m_checkSum ?g1 = replicate 16 0" "length (m_msgTag ?g1) = 16"
    "m_autoIncrement ?g1" "m_gcmNonce ?g1 = ?N" "ctr_isInitialized (m_cipherMode ?g1)"
    "profile_accepted (m_parallelProfileG ?g1)" "\<not> m_isFinalized ?g1"
    "\<not> m_isEncryption ?g1" "m_isInitialized ?g1" "\<not> m_aadPreserve ?g1"
    by (simp_all add: GCM_initialized_def GCM_ctor_def GCM_Scope_def E
        example_profile_accepted)
  have lv: "length (m_gcmVector ?g1) = 16" unfolding f1(2) by simp
  have ln: "8 \<le> length (m_gcmNonce ?g1)" unfolding f1(6) by simp
  have fb: "GHASH_FinalizeBlock ?E (spec_hash_subkey ?E (m_key ?kp)) (m_checkSum ?g1)
              (m_aadSize ?g1) (m_msgSize ?g1)
            = (spec_hash_subkey ?E (m_key ?kp), replicate 16 0)"
    by (simp only: F f1(3))
  have "\<exists>g'. GCM_CalculateMac ?E ?g1 = Inr g'
            \<and> m_msgTag g' = map2 (XOR) (replicate 16 0) (m_gcmVector ?g1)
            \<and> m_isFinalized g' \<and> m_isInitialized g'
            \<and> m_isEncryption g' = m_isEncryption ?g1
            \<and> m_gcmHash g' \<noteq> None
            \<and> m_gcmVector g'
                = Engine_Transform ?E (m_gcmKey ?g1)
                    (snd (spec_J0 ?E (GHASH_Reset ?E (spec_hash_subkey ?E (m_key ?kp)))
                            (BeIncrement8 (m_gcmNonce ?g1))))
            \<and> (\<not> m_aadPreserve ?g1 \<longrightarrow> m_checkSum g' = replicate 16 0)"
    by (rule GCM_CalculateMac_autoIncrement [OF ok f1(1) fb _ lv f1(4) f1(5) ln f1(7) f1(8) f1(9)])
      simp
  then obtain g2 h2 where
    c: "GCM_CalculateMac ?E ?g1 = Inr g2"
    and t2: "m_msgTag g2 = ?J"
    and s2: "m_isFinalized g2" "m_isInitialized g2" "\<not> m_isEncryption g2"
    and h2: "m_gcmHash g2 = Some h2"
    and v2: "m_gcmVector g2 = BeIncrement8 ?N @ [0, 0, 0, 1]"
    and c2: "m_checkSum g2 = replicate 16 0"
    using f1 by (auto simp add: map2_xor_zero J12 E)
  have cmp: "Compare ?J 0 ?J 0 16 = Inr True"
    by (simp add: Compare_def)
  have v: "GCM_Verify ?E ?g1 ?J 0 16 = Inr (g2, True)"
    by (rule GCM_Verify_Inr [OF f1(10) f1(11) f1(9) _ _ c]) (simp_all add: t2 cmp)
  let ?st = "(\<lambda>_. [])(0 := [7, 8, 9]) :: store"
  obtain c' bytes where ct: "CTR_Transform (Engine_Transform ?E) (m_cipherMode g2)
          (buffer_slice (?st 0) 0 3) = (c', bytes)"
    by (cases "CTR_Transform (Engine_Transform ?E) (m_cipherMode g2) (buffer_slice (?st 0) 0 3)")
  have at: "CTR_TransformAt (Engine_Transform ?E) (m_cipherMode g2) ?st 0 0 0 0 3
            = Inr (c', ?st(0 := buffer_write (?st 0) 0 bytes))"
    using ct by (simp add: CTR_TransformAt_def)
  have chk: "3 \<le> min (size_t_sub (length (?st 0)) 0) (size_t_sub (length (?st 0)) 0)"
    by (rule Transform_size_check) simp_all
  let ?g3 = "g2\<lparr>m_cipherMode := c', m_gcmHash := Some (h2 + length (buffer_slice (?st 0) 0 3)),
               m_checkSum := m_checkSum g2, m_msgSize := (m_msgSize g2 + 3) mod 2 ^ 64\<rparr>"
  have tr: "GCM_Transform ?E g2 ?st 0 0 0 0 3 = Inr (?g3, ?st(0 := buffer_write (?st 0) 0 bytes))"
    by (rule GCM_Transform_decrypt [OF s2(2) s2(3) h2 chk _ at]) (simp only: U)
  have ne: "BeIncrement8 ?N \<noteq> ?N" by (rule BeIncrement8_neq) simp
  have tag3: "spec_tag ?E ?g3 = BeIncrement8 ?N @ [0, 0, 0, 1]"
    by (simp add: spec_tag_def F c2 v2 map2_xor_zero)
  have l3: "length (m_msgTag ?g3) = 16" by (simp add: t2)
  have f3: "m_isFinalized ?g3" "\<not> m_isEncryption ?g3" using s2 by simp_all
  have b16: "0 + 16 \<le> length (spec_tag ?E ?g3)" unfolding tag3 by simp
  have right: "GCM_Verify ?E ?g3 (spec_tag ?E ?g3) 0 16 = Inr (?g3, False)"
  proof -
    have "GCM_Verify ?E ?g3 (spec_tag ?E ?g3) 0 16
        = Inr (?g3, buffer_slice (m_msgTag ?g3) 0 16 = buffer_slice (spec_tag ?E ?g3) 0 16)"
      by (rule GCM_Verify_finalized [OF f3 l3 _ _ b16]) simp_all
    moreover have "(buffer_slice (m_msgTag ?g3) 0 16 = buffer_slice (spec_tag ?E ?g3) 0 16)
        = False"
      unfolding tag3 using ne by (simp add: t2 buffer_slice_def)
    ultimately show ?thesis by (simp only:)
  qed
  have stale: "GCM_Verify ?E ?g3 ?J 0 16 = Inr (?g3, True)"
  proof -
    have "GCM_Verify ?E ?g3 ?J 0 16
        = Inr (?g3, buffer_slice (m_msgTag ?g3) 0 16 = buffer_slice ?J 0 16)"
      by (rule GCM_Verify_finalized [OF f3 l3]) simp_all
    moreover have "(buffer_slice (m_msgTag ?g3) 0 16 = buffer_slice ?J 0 16) = True"
      by (simp add: t2)
    ultimately show ?thesis by (simp only:)
  qed
  have l16: "length (spec_tag ?E ?g3) = 16" unfolding tag3 by simp
  from i v s2(1,2) tr l16 right stale show ?thesis by blast
qed

subsection \<open>Keccak512: Reset\<close>

lemma keccak_okD: "keccak_ok ext \<Longrightarrow> length (Permute ext Input InOffset Size H) = length H"
  by (simp add: keccak_ok_def)

lemma Keccak512_Compress_length [simp]:
  "keccak_ok ext \<Longrightarrow>
   length (State_H (Keccak512_Compress ext Input InOffset st)) = length (State_H st)"
  by (simp add: Keccak512_Compress_def keccak_okD)

lemma Keccak512State_Reset_shape:
  "length (State_H st') = length (State_H st)
   \<Longrightarrow> Keccak512State_Reset st' = Keccak512State_Reset st"
  by (simp add: Keccak512State_Reset_def)

lemma Keccak512State_Reset_length:
  "Keccak512State_Reset st = Inr st' \<Longrightarrow> length (State_H st') = length (State_H st)"
  by (auto simp add: Keccak512State_Reset_def Let_def split: if_splits)

lemma Keccak512State_Reset_Inr:
  "Keccak512State_Reset st = Inr st' \<Longrightarrow>
   st' = \<lparr>State_H = (replicate (length (State_H st)) 0)[1 := MAX_ULL, 2 := MAX_ULL,
              8 := MAX_ULL, 12 := MAX_ULL, 17 := MAX_ULL, 20 := MAX_ULL], State_T = 0\<rparr>"
  by (auto simp add: Keccak512State_Reset_def Let_def split: if_splits)

lemma Keccak512_Reset_loop_shape:
  assumes "length ds' = length ds"
    and "\<forall>i\<in>set idx. i < length ds \<longrightarrow> length (State_H (ds' ! i)) = length (State_H (ds ! i))"
    and "\<forall>i<length ds. i \<notin> set idx \<longrightarrow> ds' ! i = ds ! i"
    and "\<forall>x. p'\<lparr>NodeOffset := x\<rparr> = p\<lparr>NodeOffset := x\<rparr>"
    and "(par \<and> idx \<noteq> []) \<or> p' = p"
  shows "Keccak512_Reset_loop ext par idx p' ds' = Keccak512_Reset_loop ext par idx p ds"
  using assms
proof (induction idx arbitrary: p p' ds ds')
  case Nil
  then have "ds' = ds" by (auto intro: nth_equalityI)
  with Nil show ?case by simp
next
  case (Cons i rest)
  show ?case
  proof (cases "length ds \<le> i")
    case True
    with Cons.prems(1) show ?thesis by simp
  next
    case False
    then have i: "i < length ds" by simp
    have r: "Keccak512State_Reset (ds' ! i) = Keccak512State_Reset (ds ! i)"
      using Cons.prems(2) i by (auto intro: Keccak512State_Reset_shape)
    show ?thesis
    proof (cases "Keccak512State_Reset (ds ! i)")
      case (Inl e)
      with r i Cons.prems(1) show ?thesis by simp
    next
      case (Inr st)
      show ?thesis
      proof (cases par)
        case True
        let ?q = "p\<lparr>NodeOffset := of_nat i\<rparr>"
        let ?v = "Keccak512_Compress ext (ToBytes ext ?q) 0 st"
        have q: "p'\<lparr>NodeOffset := of_nat i\<rparr> = ?q" using Cons.prems(4) by simp
        have "Keccak512_Reset_loop ext par rest ?q (ds'[i := ?v])
            = Keccak512_Reset_loop ext par rest ?q (ds[i := ?v])"
        proof (rule Cons.IH)
          show "length (ds'[i := ?v]) = length (ds[i := ?v])" using Cons.prems(1) by simp
          show "\<forall>j\<in>set rest. j < length (ds[i := ?v]) \<longrightarrow>
              length (State_H (ds'[i := ?v] ! j)) = length (State_H (ds[i := ?v] ! j))"
            using Cons.prems(1,2) i by (auto simp add: nth_list_update)
          show "\<forall>j<length (ds[i := ?v]). j \<notin> set rest \<longrightarrow> ds'[i := ?v] ! j = ds[i := ?v] ! j"
            using Cons.prems(1,3) i by (auto simp add: nth_list_update)
          show "\<forall>x. ?q\<lparr>NodeOffset := x\<rparr> = ?q\<lparr>NodeOffset := x\<rparr>" by simp
          show "par \<and> rest \<noteq> [] \<or> ?q = ?q" by simp
        qed
        with True Inr r i Cons.prems(1) q show ?thesis by (simp add: Let_def)
      next
        case False
        with Cons.prems(5) have pp: "p' = p" by simp
        have "Keccak512_Reset_loop ext par rest p (ds'[i := st])
            = Keccak512_Reset_loop ext par rest p (ds[i := st])"
        proof (rule Cons.IH)
          show "length (ds'[i := st]) = length (ds[i := st])" using Cons.prems(1) by simp
          show "\<forall>j\<in>set rest. j < length (ds[i := st]) \<longrightarrow>
              length (State_H (ds'[i := st] ! j)) = length (State_H (ds[i := st] ! j))"
            using Cons.prems(1,2) i by (auto simp add: nth_list_update)
          show "\<forall>j<length (ds[i := st]). j \<notin> set rest \<longrightarrow> ds'[i := st] ! j = ds[i := st] ! j"
            using Cons.prems(1,3) i by (auto simp add: nth_list_update)
          show "\<forall>x. p\<lparr>NodeOffset := x\<rparr> = p\<lparr>NodeOffset := x\<rparr>" by simp
          show "par \<and> rest \<noteq> [] \<or> p = p" by simp
        qed
        with False Inr r i Cons.prems(1) pp show ?thesis by simp
      qed
    qed
  qed
qed

lemma Keccak512_Reset_loop_result:
  assumes ok: "keccak_ok ext"
    and "Keccak512_Reset_loop ext par idx p ds = Inr (p1, ds1)"
  shows "length ds1 = length ds
    \<and> (\<forall>i<length ds. length (State_H (ds1 ! i)) = length (State_H (ds ! i)))
    \<and> (\<forall>x. p1\<lparr>NodeOffset := x\<rparr> = p\<lparr>NodeOffset := x\<rparr>)
    \<and> (par \<and> idx \<noteq> [] \<or> p1 = p)"
  using assms(2)
proof (induction idx arbitrary: p ds)
  case Nil
  then show ?case by simp
next
  case (Cons i rest)
  from Cons.prems have i: "i < length ds"
    by (auto split: if_splits)
  from Cons.prems i obtain st where st: "Keccak512State_Reset (ds ! i) = Inr st"
    by (cases "Keccak512State_Reset (ds ! i)") auto
  have l: "length (State_H st) = length (State_H (ds ! i))"
    by (rule Keccak512State_Reset_length [OF st])
  show ?case
  proof (cases par)
    case True
    let ?q = "p\<lparr>NodeOffset := of_nat i\<rparr>"
    let ?v = "Keccak512_Compress ext (ToBytes ext ?q) 0 st"
    from Cons.prems i st True
    have "Keccak512_Reset_loop ext par rest ?q (ds[i := ?v]) = Inr (p1, ds1)"
      by (simp add: Let_def)
    from Cons.IH [OF this]
    have a: "length ds1 = length ds"
      and b: "\<forall>j<length ds. length (State_H (ds1 ! j)) = length (State_H (ds[i := ?v] ! j))"
      and c: "\<forall>x. p1\<lparr>NodeOffset := x\<rparr> = ?q\<lparr>NodeOffset := x\<rparr>"
      by simp_all
    have "\<forall>j<length ds. length (State_H (ds1 ! j)) = length (State_H (ds ! j))"
      using b l ok i by (auto simp add: nth_list_update split: if_splits)
    with a c True show ?thesis by simp
  next
    case False
    from Cons.prems i st False
    have "Keccak512_Reset_loop ext par rest p (ds[i := st]) = Inr (p1, ds1)"
      by simp
    from Cons.IH [OF this] False
    have a: "length ds1 = length ds"
      and b: "\<forall>j<length ds. length (State_H (ds1 ! j)) = length (State_H (ds[i := st] ! j))"
      and c: "p1 = p"
      by simp_all
    have "\<forall>j<length ds. length (State_H (ds1 ! j)) = length (State_H (ds ! j))"
      using b l i by (auto simp add: nth_list_update split: if_splits)
    with a c show ?thesis by simp
  qed
qed

lemma Clear_length: "length v = n \<Longrightarrow> Clear v 0 n = Inr (replicate n 0)"
  by (simp add: Clear_def)

lemma Keccak512_Reset_Inr:
  assumes "Keccak512_Reset ext s = Inr r"
  shows "\<exists>p1 ds1. Keccak512_Reset_loop ext (IsParallel (m_parallelProfile s))
              [0..<length (m_dgtState s)] (m_treeParams s) (m_dgtState s) = Inr (p1, ds1)
          \<and> r = s\<lparr>m_msgBuffer := replicate (length (m_msgBuffer s)) 0, m_msgLength := 0,
                   m_treeParams := p1, m_dgtState := ds1\<rparr>"
proof (cases "Keccak512_Reset_loop ext (IsParallel (m_parallelProfile s))
              [0..<length (m_dgtState s)] (m_treeParams s) (m_dgtState s)")
  case (Inl e)
  with assms show ?thesis by (simp add: Keccak512_Reset_def)
next
  case (Inr x)
  obtain p1 ds1 where "x = (p1, ds1)" by (cases x)
  with Inr assms show ?thesis by (auto simp add: Keccak512_Reset_def)
qed

lemma Keccak512_same_shape_states:
  assumes "Keccak512_same_shape s s'"
  shows "length (m_dgtState s') = length (m_dgtState s)"
    and "\<forall>i<length (m_dgtState s).
           length (State_H (m_dgtState s' ! i)) = length (State_H (m_dgtState s ! i))"
proof -
  from assms have m: "map (\<lambda>st. length (State_H st)) (m_dgtState s')
          = map (\<lambda>st. length (State_H st)) (m_dgtState s)"
    by (simp add: Keccak512_same_shape_def)
  then show l: "length (m_dgtState s') = length (m_dgtState s)"
    by (rule map_eq_imp_length_eq)
  show "\<forall>i<length (m_dgtState s).
           length (State_H (m_dgtState s' ! i)) = length (State_H (m_dgtState s ! i))"
  proof (intro allI impI)
    fix i assume i: "i < length (m_dgtState s)"
    from m have "map (\<lambda>st. length (State_H st)) (m_dgtState s') ! i
          = map (\<lambda>st. length (State_H st)) (m_dgtState s) ! i" by simp
    with i l show "length (State_H (m_dgtState s' ! i)) = length (State_H (m_dgtState s ! i))"
      by simp
  qed
qed

lemma Keccak512_same_shapeI:
  assumes "m_treeParams s' = m_treeParams s" "m_isDestroyedK s' = m_isDestroyedK s"
    "m_parallelProfile s' = m_parallelProfile s"
    "length (m_msgBuffer s') = length (m_msgBuffer s)"
    "length (m_dgtState s') = length (m_dgtState s)"
    "\<forall>i<length (m_dgtState s).
           length (State_H (m_dgtState s' ! i)) = length (State_H (m_dgtState s ! i))"
  shows "Keccak512_same_shape s s'"
proof -
  have "map (\<lambda>st. length (State_H st)) (m_dgtState s')
          = map (\<lambda>st. length (State_H st)) (m_dgtState s)"
    using assms(5,6) by (auto intro: nth_equalityI)
  with assms(1-4) show ?thesis by (simp add: Keccak512_same_shape_def)
qed

lemma Keccak512_same_shape_refl: "Keccak512_same_shape s s"
  by (simp add: Keccak512_same_shape_def)

lemma Keccak512_same_shape_trans:
  "Keccak512_same_shape s s' \<Longrightarrow> Keccak512_same_shape s' s'' \<Longrightarrow> Keccak512_same_shape s s''"
  by (simp add: Keccak512_same_shape_def)

lemma Keccak512_Reset_same_shape:
  assumes sh: "Keccak512_same_shape s s'"
  shows "Keccak512_Reset ext s' = Keccak512_Reset ext s"
proof -
  note st = Keccak512_same_shape_states [OF sh]
  from sh have f: "m_treeParams s' = m_treeParams s" "m_isDestroyedK s' = m_isDestroyedK s"
    "m_parallelProfile s' = m_parallelProfile s"
    "length (m_msgBuffer s') = length (m_msgBuffer s)"
    by (simp_all add: Keccak512_same_shape_def)
  have loop: "Keccak512_Reset_loop ext (IsParallel (m_parallelProfile s))
              [0..<length (m_dgtState s)] (m_treeParams s) (m_dgtState s')
        = Keccak512_Reset_loop ext (IsParallel (m_parallelProfile s))
              [0..<length (m_dgtState s)] (m_treeParams s) (m_dgtState s)"
    by (rule Keccak512_Reset_loop_shape) (use st in auto)
  have rec: "\<And>b p ds. s'\<lparr>m_msgBuffer := b, m_msgLength := 0, m_treeParams := p, m_dgtState := ds\<rparr>
      = s\<lparr>m_msgBuffer := b, m_msgLength := 0, m_treeParams := p, m_dgtState := ds\<rparr>"
    using f by (intro Keccak512.equality) simp_all
  show ?thesis
    unfolding Keccak512_Reset_def
    by (simp add: f st(1) loop rec Clear_length)
qed

lemma Keccak512_Reset_idempotent:
  assumes ok: "keccak_ok ext" and r: "Keccak512_Reset ext s = Inr r"
  shows "Keccak512_Reset ext r = Inr r"
proof -
  from Keccak512_Reset_Inr [OF r] obtain p1 ds1 where
    loop: "Keccak512_Reset_loop ext (IsParallel (m_parallelProfile s))
              [0..<length (m_dgtState s)] (m_treeParams s) (m_dgtState s) = Inr (p1, ds1)"
    and req: "r = s\<lparr>m_msgBuffer := replicate (length (m_msgBuffer s)) 0, m_msgLength := 0,
                   m_treeParams := p1, m_dgtState := ds1\<rparr>"
    by blast
  note res = Keccak512_Reset_loop_result [OF ok loop]
  have "Keccak512_Reset_loop ext (IsParallel (m_parallelProfile s))
              [0..<length (m_dgtState s)] p1 ds1
        = Keccak512_Reset_loop ext (IsParallel (m_parallelProfile s))
              [0..<length (m_dgtState s)] (m_treeParams s) (m_dgtState s)"
    by (rule Keccak512_Reset_loop_shape) (use res in auto)
  with loop have "Keccak512_Reset_loop ext (IsParallel (m_parallelProfile s))
              [0..<length (m_dgtState s)] p1 ds1 = Inr (p1, ds1)" by simp
  then show ?thesis
    using res unfolding Keccak512_Reset_def req by (simp add: Clear_length)
qed

lemma Keccak512_Reset_loop_leaves:
  assumes "Keccak512_Reset_loop ext par [k..<n] p ds = Inr (p1, ds1)" and "n = length ds"
  shows "\<forall>i<n. ds1 ! i = (if k \<le> i
                           then spec_leaf_state ext par p i (length (State_H (ds ! i)))
                           else ds ! i)"
  using assms
proof (induction "n - k" arbitrary: k p ds)
  case 0
  then have nk: "n \<le> k" by simp
  then have "[k..<n] = []" by simp
  with "0.prems"(1) have "ds1 = ds" by simp
  with nk show ?case by auto
next
  case (Suc m)
  then have k: "k < n" and upt: "[k..<n] = k # [Suc k..<n]"
    by (simp_all add: upt_conv_Cons)
  from Suc.prems upt k obtain st where st: "Keccak512State_Reset (ds ! k) = Inr st"
    by (cases "Keccak512State_Reset (ds ! k)") auto
  note h = Keccak512State_Reset_Inr [OF st]
  let ?q = "if par then p\<lparr>NodeOffset := of_nat k\<rparr> else p"
  let ?v = "spec_leaf_state ext par p k (length (State_H (ds ! k)))"
  have v: "(if par then Keccak512_Compress ext (ToBytes ext (p\<lparr>NodeOffset := of_nat k\<rparr>)) 0 st
           else st) = ?v"
    by (simp add: spec_leaf_state_def h)
  have a: "Keccak512_Reset_loop ext par [Suc k..<n] ?q (ds[k := ?v]) = Inr (p1, ds1)"
    using Suc.prems(1) k st unfolding upt v [symmetric]
    by (simp add: Suc.prems(2) Let_def split: if_splits)
  have b: "m = n - Suc k" using Suc.hyps(2) by simp
  have c: "n = length (ds[k := ?v])" using Suc.prems(2) by simp
  have ih: "\<forall>i<n. ds1 ! i = (if Suc k \<le> i
       then spec_leaf_state ext par ?q i (length (State_H (ds[k := ?v] ! i)))
       else ds[k := ?v] ! i)"
    by (rule Suc.hyps(1) [OF b a c])
  have q: "\<And>i l. spec_leaf_state ext par ?q i l = spec_leaf_state ext par p i l"
    by (simp add: spec_leaf_state_def)
  show ?case
  proof (intro allI impI)
    fix i assume i: "i < n"
    show "ds1 ! i = (if k \<le> i then spec_leaf_state ext par p i (length (State_H (ds ! i)))
                     else ds ! i)"
    proof (cases "i = k")
      case True
      with ih i k Suc.prems(2) show ?thesis by simp
    next
      case False
      with ih i Suc.prems(2) show ?thesis by (auto simp add: q)
    qed
  qed
qed

lemma Keccak512_Reset_leaves:
  assumes "Keccak512_Reset ext s = Inr r"
  shows "m_msgLength r = 0"
    and "m_msgBuffer r = replicate (length (m_msgBuffer s)) 0"
    and "length (m_dgtState r) = length (m_dgtState s)"
    and "\<forall>i<length (m_dgtState s). m_dgtState r ! i
           = spec_leaf_state ext (IsParallel (m_parallelProfile s)) (m_treeParams s) i
               (length (State_H (m_dgtState s ! i)))"
proof -
  from Keccak512_Reset_Inr [OF assms] obtain p1 ds1 where
    loop: "Keccak512_Reset_loop ext (IsParallel (m_parallelProfile s))
              [0..<length (m_dgtState s)] (m_treeParams s) (m_dgtState s) = Inr (p1, ds1)"
    and req: "r = s\<lparr>m_msgBuffer := replicate (length (m_msgBuffer s)) 0, m_msgLength := 0,
                   m_treeParams := p1, m_dgtState := ds1\<rparr>"
    by blast
  show "m_msgLength r = 0" "m_msgBuffer r = replicate (length (m_msgBuffer s)) 0"
    by (simp_all add: req)
  from Keccak512_Reset_loop_leaves [OF loop refl]
  have l: "\<forall>i<length (m_dgtState s). ds1 ! i
           = spec_leaf_state ext (IsParallel (m_parallelProfile s)) (m_treeParams s) i
               (length (State_H (m_dgtState s ! i)))"
    by simp
  then show "\<forall>i<length (m_dgtState s). m_dgtState r ! i
           = spec_leaf_state ext (IsParallel (m_parallelProfile s)) (m_treeParams s) i
               (length (State_H (m_dgtState s ! i)))"
    by (simp add: req)
  have "length ds1 = length (m_dgtState s)"
    using loop
  proof -
    have "\<And>idx p ds. Keccak512_Reset_loop ext (IsParallel (m_parallelProfile s)) idx p ds
         = Inr (p1, ds1) \<Longrightarrow> length ds1 = length ds"
    proof -
      fix idx p ds
      show "Keccak512_Reset_loop ext (IsParallel (m_parallelProfile s)) idx p ds
         = Inr (p1, ds1) \<Longrightarrow> length ds1 = length ds"
      proof (induction idx arbitrary: p ds)
        case Nil
        then show ?case by simp
      next
        case (Cons i rest)
        from Cons.prems obtain st where "Keccak512State_Reset (ds ! i) = Inr st"
          by (cases "Keccak512State_Reset (ds ! i)") (auto split: if_splits)
        with Cons.prems Cons.IH show ?case
          by (auto simp add: Let_def split: if_splits dest!: Cons.IH)
      qed
    qed
    from this [OF loop] show ?thesis .
  qed
  then show "length (m_dgtState r) = length (m_dgtState s)" by (simp add: req)
qed

subsection \<open>Keccak512: what Update and Finalize keep\<close>

lemma rbind_Some_Inr [simp]: "rbind (Some (Inr x)) f = f x"
  by (simp add: rbind_def)

lemma rbind_Some_Inl [simp]: "rbind (Some (Inl e)) f = Some (Inl e)"
  by (simp add: rbind_def)

lemma rbind_None [simp]: "rbind None f = None"
  by (simp add: rbind_def)

lemma rbind_eq_Some_Inr:
  "rbind m f = Some (Inr y) \<Longrightarrow> \<exists>x. m = Some (Inr x) \<and> f x = Some (Inr y)"
  by (auto simp add: rbind_def split: option.splits sum.splits)

lemma Copy_length: "Copy src soff dst doff n = Inr r \<Longrightarrow> length r = length dst"
  by (auto simp add: Copy_def split: if_splits)

lemma Clear_Inr_length: "Clear v off n = Inr r \<Longrightarrow> length r = length v"
  by (auto simp add: Clear_def split: if_splits)

lemma leaf_lengths_update:
  assumes "i < length ds" "length (State_H v) = length (State_H (ds ! i))"
  shows "map (\<lambda>st. length (State_H st)) (ds[i := v]) = map (\<lambda>st. length (State_H st)) ds"
  using assms by (auto intro!: nth_equalityI simp add: nth_list_update)

lemma Keccak512_ProcessLeaf_length:
  assumes r: "Keccak512_ProcessLeaf ext pms Input InOffset st Length = Some st'"
    and ok: "keccak_ok ext"
  shows "length (State_H st') = length (State_H st)"
proof -
  have "keccak_ok ext \<longrightarrow> length (State_H st') = length (State_H st)"
  proof (rule Keccak512_ProcessLeaf.raw_induct
      [where P = "\<lambda>e pms Input InOffset st Length st'.
                    keccak_ok e \<longrightarrow> length (State_H st') = length (State_H st)", OF _ r])
    fix f e pms Input InOffset State Length y
    assume ih: "\<And>e pms Input InOffset State Length y.
        f e pms Input InOffset State Length = Some y
        \<Longrightarrow> keccak_ok e \<longrightarrow> length (State_H y) = length (State_H State)"
      and body: "(let State1 = Keccak512_Compress e Input InOffset State;
          InOffset1 = size_t_add InOffset pms;
          Length1 = Length - of_nat pms
      in if 0 < Length1 then f e pms Input InOffset1 State1 Length1 else Some State1) = Some y"
    show "keccak_ok e \<longrightarrow> length (State_H y) = length (State_H State)"
    proof
      assume e: "keccak_ok e"
      show "length (State_H y) = length (State_H State)"
      proof (cases "0 < Length - of_nat pms")
        case True
        with body have "f e pms Input (size_t_add InOffset pms)
            (Keccak512_Compress e Input InOffset State) (Length - of_nat pms) = Some y"
          by (simp add: Let_def)
        from ih [OF this] e show ?thesis by simp
      next
        case False
        with body e show ?thesis by (auto simp add: Let_def)
      qed
    qed
  qed
  with ok show ?thesis by simp
qed

lemma Keccak512_ParallelFor_lengths:
  assumes f: "\<And>i st st'. f i st = Some st' \<Longrightarrow> length (State_H st') = length (State_H st)"
    and r: "Keccak512_ParallelFor idx f ds = Some (Inr ds')"
  shows "map (\<lambda>st. length (State_H st)) ds' = map (\<lambda>st. length (State_H st)) ds"
  using r
proof (induction idx arbitrary: ds)
  case Nil
  then show ?case by simp
next
  case (Cons i rest)
  from Cons.prems have i: "i < length ds" by (auto split: if_splits)
  from Cons.prems i obtain st where st: "f i (ds ! i) = Some st"
    and rest: "Keccak512_ParallelFor rest f (ds[i := st]) = Some (Inr ds')"
    by (cases "f i (ds ! i)") auto
  from Cons.IH [OF rest] leaf_lengths_update [OF i f [OF st]] show ?case by simp
qed

lemma Keccak512_Update_loop_lengths:
  "keccak_ok ext
    \<Longrightarrow> Keccak512_Update_loop ext Input InOffset Length ds = Inr (ds', InOffset', Length')
    \<Longrightarrow> map (\<lambda>st. length (State_H st)) ds' = map (\<lambda>st. length (State_H st)) ds"
proof (induction ext Input InOffset Length ds rule: Keccak512_Update_loop.induct)
  case (1 ext Input InOffset Length ds)
  note ok = "1.prems"(1) and r = "1.prems"(2)
  show ?case
  proof (cases "72 \<le> Length")
    case True
    with r have ne: "ds \<noteq> []"
      by (auto simp add: Keccak512_Update_loop.simps [of ext Input InOffset Length ds])
    let ?ds = "ds[0 := Keccak512_Compress ext Input InOffset (ds ! 0)]"
    from r True ne
    have "Keccak512_Update_loop ext Input (size_t_add InOffset 72) (Length - 72) ?ds
        = Inr (ds', InOffset', Length')"
      by (simp add: Keccak512_Update_loop.simps [of ext Input InOffset Length ds])
    from "1.IH" [OF True ne ok this]
    have "map (\<lambda>st. length (State_H st)) ds' = map (\<lambda>st. length (State_H st)) ?ds" .
    also have "\<dots> = map (\<lambda>st. length (State_H st)) ds"
      using ne ok by (intro leaf_lengths_update) simp_all
    finally show ?thesis .
  next
    case False
    with r show ?thesis
      by (simp add: Keccak512_Update_loop.simps [of ext Input InOffset Length ds])
  qed
qed

lemma Keccak512_Update_fill_shape:
  assumes ok: "keccak_ok ext"
    and r: "Keccak512_Update_fill ext s Input InOffset Length = Some (Inr (s1, InOffset1, Length1))"
  shows "Keccak512_same_shape s s1"
proof (cases "m_msgLength s \<noteq> 0
    \<and> length (m_msgBuffer s) \<le> size_t_add Length (m_msgLength s)")
  case False
  with r have "s1 = s" by (auto simp add: Keccak512_Update_fill_def)
  then show ?thesis by (simp add: Keccak512_same_shape_refl)
next
  case True
  let ?R = "size_t_sub (length (m_msgBuffer s)) (m_msgLength s)"
  have e: "Keccak512_Update_fill ext s Input InOffset Length =
        rbind (Some (if ?R \<noteq> 0
                     then Copy Input InOffset (m_msgBuffer s) (m_msgLength s) ?R
                     else Inr (m_msgBuffer s))) (\<lambda>buf.
        rbind (Keccak512_ParallelFor [0..<ParallelMaxDegree (m_parallelProfile s)]
                 (\<lambda>i st. Some (Keccak512_Compress ext buf (i * 72) st)) (m_dgtState s)) (\<lambda>ds.
        Some (Inr (s\<lparr>m_msgBuffer := buf, m_dgtState := ds, m_msgLength := 0\<rparr>,
                   size_t_add InOffset ?R, size_t_sub Length ?R))))"
    using True by (simp add: Keccak512_Update_fill_def Let_def)
  from r [unfolded e] obtain buf ds where
    b: "(if ?R \<noteq> 0 then Copy Input InOffset (m_msgBuffer s) (m_msgLength s) ?R
         else Inr (m_msgBuffer s)) = Inr buf"
    and p: "Keccak512_ParallelFor [0..<ParallelMaxDegree (m_parallelProfile s)]
                 (\<lambda>i st. Some (Keccak512_Compress ext buf (i * 72) st)) (m_dgtState s)
            = Some (Inr ds)"
    and s1: "s1 = s\<lparr>m_msgBuffer := buf, m_dgtState := ds, m_msgLength := 0\<rparr>"
    by (auto dest!: rbind_eq_Some_Inr)
  have lb: "length buf = length (m_msgBuffer s)"
    using b by (auto split: if_splits dest: Copy_length)
  have ld: "map (\<lambda>st. length (State_H st)) ds = map (\<lambda>st. length (State_H st)) (m_dgtState s)"
    by (rule Keccak512_ParallelFor_lengths [OF _ p]) (use ok in auto)
  show ?thesis by (simp add: Keccak512_same_shape_def s1 lb ld)
qed

lemma Keccak512_Update_leaves_shape:
  assumes ok: "keccak_ok ext"
    and r: "Keccak512_Update_leaves ext s Input InOffset Length Size
            = Some (Inr (s1, InOffset1, Length1))"
  shows "Keccak512_same_shape s s1"
proof (cases "Size \<le> Length")
  case False
  with r have "s1 = s" by (auto simp add: Keccak512_Update_leaves_def)
  then show ?thesis by (simp add: Keccak512_same_shape_refl)
next
  case True
  with r have nz: "Size \<noteq> 0"
    by (auto simp add: Keccak512_Update_leaves_def split: if_splits)
  have e: "Keccak512_Update_leaves ext s Input InOffset Length Size =
          rbind (Keccak512_ParallelFor [0..<ParallelMaxDegree (m_parallelProfile s)]
                   (\<lambda>i st. Keccak512_ProcessLeaf ext
                              (ParallelMinimumSize (m_parallelProfile s)) Input
                              (size_t_add InOffset (i * 72)) st
                              (of_nat (Length - Length mod Size)))
                   (m_dgtState s)) (\<lambda>ds.
          Some (Inr (s\<lparr>m_dgtState := ds\<rparr>, size_t_add InOffset (Length - Length mod Size),
                     Length - (Length - Length mod Size))))"
    using True nz by (simp add: Keccak512_Update_leaves_def Let_def)
  from r [unfolded e] obtain ds where
    p: "Keccak512_ParallelFor [0..<ParallelMaxDegree (m_parallelProfile s)]
                   (\<lambda>i st. Keccak512_ProcessLeaf ext
                              (ParallelMinimumSize (m_parallelProfile s)) Input
                              (size_t_add InOffset (i * 72)) st
                              (of_nat (Length - Length mod Size)))
                   (m_dgtState s) = Some (Inr ds)"
    and s1: "s1 = s\<lparr>m_dgtState := ds\<rparr>"
    by (auto dest!: rbind_eq_Some_Inr)
  have ld: "map (\<lambda>st. length (State_H st)) ds = map (\<lambda>st. length (State_H st)) (m_dgtState s)"
    by (rule Keccak512_ParallelFor_lengths [OF _ p]) (rule Keccak512_ProcessLeaf_length [OF _ ok])
  show ?thesis by (simp add: Keccak512_same_shape_def s1 ld)
qed

lemma Keccak512_Update_sequential_shape:
  assumes ok: "keccak_ok ext"
    and r: "Keccak512_Update_sequential ext s Input InOffset Length
            = Inr (s3, InOffset3, Length3)"
  shows "Keccak512_same_shape s s3"
proof -
  from r obtain s1 InOffset1 Length1 ds InOffset2 Length2 where
    a: "(if m_msgLength s \<noteq> 0 \<and> 72 \<le> size_t_add (m_msgLength s) Length
            then
              let RMDLEN = size_t_sub 72 (m_msgLength s) in
              ebind (if RMDLEN \<noteq> 0
                     then Copy Input InOffset (m_msgBuffer s) (m_msgLength s) RMDLEN
                     else Inr (m_msgBuffer s)) (\<lambda>buf.
              if m_dgtState s = [] then Inl OutOfRange
              else Inr (s\<lparr>m_msgBuffer := buf,
                          m_dgtState := (m_dgtState s)
                             [0 := Keccak512_Compress ext buf 0 (m_dgtState s ! 0)],
                          m_msgLength := 0\<rparr>,
                        size_t_add InOffset RMDLEN, size_t_sub Length RMDLEN))
            else Inr (s, InOffset, Length)) = Inr (s1, InOffset1, Length1)"
    and l: "Keccak512_Update_loop ext Input InOffset1 Length1 (m_dgtState s1)
            = Inr (ds, InOffset2, Length2)"
    and s3: "s3 = s1\<lparr>m_dgtState := ds\<rparr>"
    unfolding Keccak512_Update_sequential_def
    by (auto dest!: ebind_eq_Inr)
  have sh1: "Keccak512_same_shape s s1"
  proof (cases "m_msgLength s \<noteq> 0 \<and> 72 \<le> size_t_add (m_msgLength s) Length")
    case False
    with a have "s1 = s" by auto
    then show ?thesis by (simp add: Keccak512_same_shape_refl)
  next
    case True
    let ?R = "size_t_sub 72 (m_msgLength s)"
    have e: "(if m_msgLength s \<noteq> 0 \<and> 72 \<le> size_t_add (m_msgLength s) Length
            then
              let RMDLEN = size_t_sub 72 (m_msgLength s) in
              ebind (if RMDLEN \<noteq> 0
                     then Copy Input InOffset (m_msgBuffer s) (m_msgLength s) RMDLEN
                     else Inr (m_msgBuffer s)) (\<lambda>buf.
              if m_dgtState s = [] then Inl OutOfRange
              else Inr (s\<lparr>m_msgBuffer := buf,
                          m_dgtState := (m_dgtState s)
                             [0 := Keccak512_Compress ext buf 0 (m_dgtState s ! 0)],
                          m_msgLength := 0\<rparr>,
                        size_t_add InOffset RMDLEN, size_t_sub Length RMDLEN))
            else Inr (s, InOffset, Length))
         = ebind (if ?R \<noteq> 0
                     then Copy Input InOffset (m_msgBuffer s) (m_msgLength s) ?R
                     else Inr (m_msgBuffer s)) (\<lambda>buf.
              if m_dgtState s = [] then Inl OutOfRange
              else Inr (s\<lparr>m_msgBuffer := buf,
                          m_dgtState := (m_dgtState s)
                             [0 := Keccak512_Compress ext buf 0 (m_dgtState s ! 0)],
                          m_msgLength := 0\<rparr>,
                        size_t_add InOffset ?R, size_t_sub Length ?R))"
      using True by (simp add: Let_def)
    from a [unfolded e] obtain buf where
      b: "(if ?R \<noteq> 0 then Copy Input InOffset (m_msgBuffer s) (m_msgLength s) ?R
           else Inr (m_msgBuffer s)) = Inr buf"
      and f: "(if m_dgtState s = [] then Inl OutOfRange
              else Inr (s\<lparr>m_msgBuffer := buf,
                          m_dgtState := (m_dgtState s)
                             [0 := Keccak512_Compress ext buf 0 (m_dgtState s ! 0)],
                          m_msgLength := 0\<rparr>,
                        size_t_add InOffset ?R, size_t_sub Length ?R))
             = Inr (s1, InOffset1, Length1)"
      by (blast dest: ebind_eq_Inr)
    from f have ne: "m_dgtState s \<noteq> []"
      and s1: "s1 = s\<lparr>m_msgBuffer := buf,
                          m_dgtState := (m_dgtState s)
                             [0 := Keccak512_Compress ext buf 0 (m_dgtState s ! 0)],
                          m_msgLength := 0\<rparr>"
      by (auto split: if_splits)
    have lb: "length buf = length (m_msgBuffer s)"
      using b by (auto split: if_splits dest: Copy_length)
    have "map (\<lambda>st. length (State_H st))
            ((m_dgtState s)[0 := Keccak512_Compress ext buf 0 (m_dgtState s ! 0)])
          = map (\<lambda>st. length (State_H st)) (m_dgtState s)"
      using ne ok by (intro leaf_lengths_update) simp_all
    then show ?thesis by (simp add: Keccak512_same_shape_def s1 lb)
  qed
  from Keccak512_Update_loop_lengths [OF ok l]
  have "Keccak512_same_shape s1 s3" by (simp add: Keccak512_same_shape_def s3)
  with sh1 show ?thesis by (rule Keccak512_same_shape_trans)
qed

lemma Keccak512_Update_shape:
  assumes ok: "keccak_ok ext"
    and r: "Keccak512_Update ext s Input InOffset Length = Some (Inr s')"
  shows "Keccak512_same_shape s s'"
proof (cases "Length = 0")
  case True
  with r have "s' = s"
    by (auto simp add: Keccak512_Update_def CEXASSERT_def split: if_splits)
  then show ?thesis by (simp add: Keccak512_same_shape_refl)
next
  case False
  from r False obtain s3 InOffset3 Length3 where
    br: "(if IsParallel (m_parallelProfile s)
              then
                rbind (Keccak512_Update_fill ext s Input InOffset Length)
                  (\<lambda>(s1, InOffset1, Length1).
                rbind (Keccak512_Update_leaves ext s1 Input InOffset1 Length1
                         (ParallelBlockSize (m_parallelProfile s1)))
                  (\<lambda>(s2, InOffset2, Length2).
                Keccak512_Update_leaves ext s2 Input InOffset2 Length2
                  (ParallelMinimumSize (m_parallelProfile s2))))
              else Some (Keccak512_Update_sequential ext s Input InOffset Length))
          = Some (Inr (s3, InOffset3, Length3))"
    and tail: "(if Length3 \<noteq> 0
       then rbind (Some (Copy Input InOffset3 (m_msgBuffer s3) (m_msgLength s3) Length3))
              (\<lambda>buf.
            Some (Inr (s3\<lparr>m_msgBuffer := buf,
                         m_msgLength := size_t_add (m_msgLength s3) Length3\<rparr>)))
       else Some (Inr s3)) = Some (Inr s')"
    unfolding Keccak512_Update_def
    by (auto simp add: CEXASSERT_def split: if_splits dest!: rbind_eq_Some_Inr)
  have sh3: "Keccak512_same_shape s s3"
  proof (cases "IsParallel (m_parallelProfile s)")
    case False
    with br show ?thesis by (auto intro: Keccak512_Update_sequential_shape [OF ok])
  next
    case True
    with br obtain s1 InOffset1 Length1 s2 InOffset2 Length2 where
      f: "Keccak512_Update_fill ext s Input InOffset Length = Some (Inr (s1, InOffset1, Length1))"
      and l1: "Keccak512_Update_leaves ext s1 Input InOffset1 Length1
                 (ParallelBlockSize (m_parallelProfile s1)) = Some (Inr (s2, InOffset2, Length2))"
      and l2: "Keccak512_Update_leaves ext s2 Input InOffset2 Length2
                 (ParallelMinimumSize (m_parallelProfile s2)) = Some (Inr (s3, InOffset3, Length3))"
      by (auto dest!: rbind_eq_Some_Inr)
    from Keccak512_Update_fill_shape [OF ok f] Keccak512_Update_leaves_shape [OF ok l1]
      Keccak512_Update_leaves_shape [OF ok l2]
    show ?thesis by (blast intro: Keccak512_same_shape_trans)
  qed
  have "Keccak512_same_shape s3 s'"
  proof (cases "Length3 = 0")
    case True
    with tail show ?thesis by (simp add: Keccak512_same_shape_refl)
  next
    case False
    with tail obtain buf where
      "Copy Input InOffset3 (m_msgBuffer s3) (m_msgLength s3) Length3 = Inr buf"
      "s' = s3\<lparr>m_msgBuffer := buf, m_msgLength := size_t_add (m_msgLength s3) Length3\<rparr>"
      by (auto dest!: rbind_eq_Some_Inr)
    then show ?thesis by (auto simp add: Keccak512_same_shape_def dest: Copy_length)
  qed
  with sh3 show ?thesis by (rule Keccak512_same_shape_trans)
qed

lemma Keccak512_HashFinal_lengths:
  assumes ok: "keccak_ok ext"
    and r: "Keccak512_HashFinal ext Input InOffset Length st = Inr (Input', st')"
  shows "length Input' = length Input" and "length (State_H st') = length (State_H st)"
  using r ok
  by (auto simp add: Keccak512_HashFinal_def Let_def split: if_splits)

lemma length_concat_Le64ToBytes: "length (concat (map Le64ToBytes xs)) = 8 * length xs"
  by (induction xs) (simp_all add: Le64ToBytes_def)

lemma LeULL512ToBlock_length:
  assumes "LeULL512ToBlock Input InOffset Output OutOffset = Inr r"
  shows "length r = length Output"
  using assms
  by (auto simp add: LeULL512ToBlock_def buffer_write_def buffer_slice_def
      length_concat_Le64ToBytes split: if_splits)

lemma Keccak512_Finalize_leaves_lengths:
  "keccak_ok ext
   \<Longrightarrow> Keccak512_Finalize_leaves ext blkCtr msgLength buf ds = Inr (buf', ds')
   \<Longrightarrow> length buf' = length buf
       \<and> map (\<lambda>st. length (State_H st)) ds' = map (\<lambda>st. length (State_H st)) ds"
proof (induction ext blkCtr msgLength buf ds rule: Keccak512_Finalize_leaves.induct)
  case (1 ext blkCtr msgLength buf ds)
  note ok = "1.prems"(1) and r = "1.prems"(2)
  note simps = Keccak512_Finalize_leaves.simps [of ext blkCtr msgLength buf ds]
  show ?case
  proof (cases "msgLength = 0")
    case True
    with r show ?thesis by (simp add: Keccak512_Finalize_leaves.simps)
  next
    case False
    let ?M = "if 72 \<le> msgLength then 72 else msgLength"
    from r False have b: "\<not> length ds \<le> blkCtr"
      by (auto simp add: simps Let_def split: if_splits)
    from r False b obtain buf1 st where
      h: "Keccak512_HashFinal ext buf (blkCtr * 72) ?M (ds ! blkCtr) = Inr (buf1, st)"
      and rest: "Keccak512_Finalize_leaves ext (blkCtr + 1) (msgLength - ?M) buf1
                   (ds[blkCtr := st]) = Inr (buf', ds')"
      by (auto simp add: simps Let_def split: sum.splits)
    from "1.IH" [OF False refl b h refl ok rest]
    have "length buf' = length buf1"
      and "map (\<lambda>st. length (State_H st)) ds'
           = map (\<lambda>st. length (State_H st)) (ds[blkCtr := st])"
      by simp_all
    moreover have "map (\<lambda>st. length (State_H st)) (ds[blkCtr := st])
           = map (\<lambda>st. length (State_H st)) ds"
      using b Keccak512_HashFinal_lengths(2) [OF ok h] by (intro leaf_lengths_update) simp_all
    ultimately show ?thesis
      using Keccak512_HashFinal_lengths(1) [OF ok h] by simp
  qed
qed

lemma Keccak512_Finalize_states_length:
  "Keccak512_Finalize_states ds i buf msgLength = Inr (buf', msgLength')
   \<Longrightarrow> length buf' = length buf"
proof (induction ds arbitrary: i buf msgLength)
  case Nil
  then show ?case by simp
next
  case (Cons st rest)
  from Cons.prems obtain buf1 where
    w: "LeULL512ToBlock (State_H st) 0 buf (i * 72) = Inr buf1"
    and r: "Keccak512_Finalize_states rest (i + 1) buf1 (size_t_add msgLength 64)
            = Inr (buf', msgLength')"
    by (auto dest!: ebind_eq_Inr)
  from Cons.IH [OF r] LeULL512ToBlock_length [OF w] show ?case by simp
qed

lemma Keccak512_Finalize_parallel_shape:
  assumes ok: "keccak_ok ext"
    and r: "Keccak512_Finalize_parallel ext s Output OutOffset = Inr (s1, out)"
  shows "Keccak512_same_shape s s1"
proof -
  from r obtain buf1 buf2 ds buf3 msgLength3 buf4 msgLength4 blkOff rootState1 rootState2 where
    c: "(if m_msgLength s < length (m_msgBuffer s)
            then Clear (m_msgBuffer s) (m_msgLength s) (length (m_msgBuffer s) - m_msgLength s)
            else Inr (m_msgBuffer s)) = Inr buf1"
    and l: "Keccak512_Finalize_leaves ext 0 (m_msgLength s) buf1 (m_dgtState s) = Inr (buf2, ds)"
    and w: "Keccak512_Finalize_states ds 0 buf2 0 = Inr (buf3, msgLength3)"
    and h: "Keccak512_HashFinal ext buf3 blkOff msgLength4 rootState1 = Inr (buf4, rootState2)"
    and s1: "s1 = s\<lparr>m_msgBuffer := buf4, m_dgtState := ds, m_msgLength := msgLength4\<rparr>"
    unfolding Keccak512_Finalize_parallel_def Let_def
    by (auto dest!: ebind_eq_Inr split: if_splits prod.splits)
  have "length buf1 = length (m_msgBuffer s)"
    using c by (auto split: if_splits dest: Clear_Inr_length)
  moreover note Keccak512_Finalize_leaves_lengths [OF ok l]
    Keccak512_Finalize_states_length [OF w] Keccak512_HashFinal_lengths(1) [OF ok h]
  ultimately show ?thesis by (simp add: Keccak512_same_shape_def s1)
qed

lemma Keccak512_Finalize_sequential_shape:
  assumes ok: "keccak_ok ext"
    and r: "Keccak512_Finalize_sequential ext s Output OutOffset = Inr (s1, out)"
  shows "Keccak512_same_shape s s1"
proof -
  from r obtain buf1 buf2 st where
    c: "(if m_msgLength s \<noteq> length (m_msgBuffer s)
            then Clear (m_msgBuffer s) (m_msgLength s)
                   (size_t_sub (length (m_msgBuffer s)) (m_msgLength s))
            else Inr (m_msgBuffer s)) = Inr buf1"
    and ne: "m_dgtState s \<noteq> []"
    and h: "Keccak512_HashFinal ext buf1 0 (m_msgLength s) (m_dgtState s ! 0) = Inr (buf2, st)"
    and s1: "s1 = s\<lparr>m_msgBuffer := buf2, m_dgtState := (m_dgtState s)[0 := st]\<rparr>"
    unfolding Keccak512_Finalize_sequential_def
    by (auto dest!: ebind_eq_Inr split: if_splits)
  have "length buf1 = length (m_msgBuffer s)"
    using c by (auto split: if_splits dest: Clear_Inr_length)
  moreover have "map (\<lambda>st. length (State_H st)) ((m_dgtState s)[0 := st])
           = map (\<lambda>st. length (State_H st)) (m_dgtState s)"
    using ne Keccak512_HashFinal_lengths(2) [OF ok h] by (intro leaf_lengths_update) simp_all
  ultimately show ?thesis
    using Keccak512_HashFinal_lengths(1) [OF ok h] by (simp add: Keccak512_same_shape_def s1)
qed

lemma Keccak512_Finalize_Inr:
  assumes ok: "keccak_ok ext"
    and r: "Keccak512_Finalize ext s Output OutOffset = Inr (s2, out)"
  shows "\<exists>s1. Keccak512_same_shape s s1 \<and> Keccak512_Reset ext s1 = Inr s2"
proof -
  from r obtain s1 out1 where
    p: "(if IsParallel (m_parallelProfile s)
               then Keccak512_Finalize_parallel ext s Output OutOffset
               else Keccak512_Finalize_sequential ext s Output OutOffset) = Inr (s1, out1)"
    and reset: "Keccak512_Reset ext s1 = Inr s2"
    unfolding Keccak512_Finalize_def CEXASSERT_def
    by (auto dest!: ebind_eq_Inr split: if_splits)
  from p have "Keccak512_same_shape s s1"
    by (auto split: if_splits intro: Keccak512_Finalize_parallel_shape [OF ok]
        Keccak512_Finalize_sequential_shape [OF ok])
  with reset show ?thesis by blast
qed

lemma Keccak512_Finalize_fresh:
  assumes ok: "keccak_ok ext"
    and fresh: "Keccak512_Reset ext s0 = Inr s0"
    and sh: "Keccak512_same_shape s0 s"
    and r: "Keccak512_Finalize ext s Output OutOffset = Inr (s2, out)"
  shows "s2 = s0"
proof -
  from Keccak512_Finalize_Inr [OF ok r] obtain s1 where
    sh1: "Keccak512_same_shape s s1" and reset: "Keccak512_Reset ext s1 = Inr s2"
    by blast
  from sh sh1 have "Keccak512_same_shape s0 s1" by (rule Keccak512_same_shape_trans)
  from Keccak512_Reset_same_shape [OF this, of ext] reset fresh show ?thesis by simp
qed

lemma Keccak512_ctor_fresh:
  assumes ok: "keccak_ok ext" and "Keccak512_ctor ext params profile Parallel = Inr s0"
  shows "Keccak512_Reset ext s0 = Inr s0"
  using assms(2) unfolding Keccak512_ctor_def
  by (auto dest!: ebind_eq_Inr intro: Keccak512_Reset_idempotent [OF ok])

lemma Keccak512_ctor_Params_fresh:
  assumes ok: "keccak_ok ext" and "Keccak512_ctor_Params ext Params profile = Inr s0"
  shows "Keccak512_Reset ext s0 = Inr s0"
  using assms(2) unfolding Keccak512_ctor_Params_def
  by (auto dest!: ebind_eq_Inr intro: Keccak512_Reset_idempotent [OF ok])

lemma Keccak512_Updates_shape:
  assumes ok: "keccak_ok ext"
  shows "Keccak512_Updates ext s xs = Some (Inr s') \<Longrightarrow> Keccak512_same_shape s s'"
proof (induction xs arbitrary: s)
  case Nil
  then show ?case by (simp add: Keccak512_same_shape_refl)
next
  case (Cons x xs)
  obtain Input InOffset Length where x: "x = (Input, InOffset, Length)" by (cases x)
  from Cons.prems x obtain s1 where
    u: "Keccak512_Update ext s Input InOffset Length = Some (Inr s1)"
    and r: "Keccak512_Updates ext s1 xs = Some (Inr s')"
    by (auto dest!: rbind_eq_Some_Inr)
  from Keccak512_Update_shape [OF ok u] Cons.IH [OF r] show ?case
    by (rule Keccak512_same_shape_trans)
qed

subsection \<open>Keccak512: the sequential instance returns\<close>

lemma Copy_Inr:
  "soff + n \<le> length src \<Longrightarrow> doff + n \<le> length dst
   \<Longrightarrow> \<exists>r. Copy src soff dst doff n = Inr r \<and> length r = length dst"
  by (simp add: Copy_def)

lemma size_t_add_lt: "a + b < 2 ^ 64 \<Longrightarrow> size_t_add a b = a + b"
  by (simp add: size_t_add_def)

lemma Keccak512_Update_loop_returns:
  "ds \<noteq> [] \<Longrightarrow> InOffset + Length < 2 ^ 64 \<Longrightarrow>
   \<exists>ds'. Keccak512_Update_loop ext Input InOffset Length ds
           = Inr (ds', InOffset + (Length - Length mod 72), Length mod 72)
         \<and> length ds' = length ds"
proof (induction ext Input InOffset Length ds rule: Keccak512_Update_loop.induct)
  case (1 ext Input InOffset Length ds)
  note ne = "1.prems"(1) and bound = "1.prems"(2)
  note simps = Keccak512_Update_loop.simps [of ext Input InOffset Length ds]
  show ?case
  proof (cases "72 \<le> Length")
    case False
    then show ?thesis by (simp add: simps)
  next
    case True
    let ?ds = "ds[0 := Keccak512_Compress ext Input InOffset (ds ! 0)]"
    have a: "size_t_add InOffset 72 = InOffset + 72"
      using True bound by (intro size_t_add_lt) simp
    have ne': "?ds \<noteq> []" using ne by simp
    have b: "size_t_add InOffset 72 + (Length - 72) < 2 ^ 64"
      using True bound by (simp add: a)
    from "1.IH" [OF True ne ne' b] obtain ds' where
      r: "Keccak512_Update_loop ext Input (size_t_add InOffset 72) (Length - 72) ?ds
          = Inr (ds', size_t_add InOffset 72 + (Length - 72 - (Length - 72) mod 72),
                 (Length - 72) mod 72)"
      and l: "length ds' = length ?ds"
      by blast
    have m: "(Length - 72) mod 72 = Length mod 72"
      using True by (simp add: le_mod_geq)
    have "Length mod 72 \<le> Length - 72"
      unfolding m [symmetric] by (rule mod_less_eq_dividend)
    then have o: "size_t_add InOffset 72 + (Length - 72 - (Length - 72) mod 72)
        = InOffset + (Length - Length mod 72)"
      unfolding m a using True by simp
    note r' = r [unfolded o, unfolded m]
    show ?thesis
      using True ne l by (simp add: simps r')
  qed
qed

lemma Keccak512_Update_returns:
  assumes seq: "\<not> IsParallel (m_parallelProfile s)"
    and ne: "m_dgtState s \<noteq> []"
    and buf: "72 \<le> length (m_msgBuffer s)"
    and len: "m_msgLength s < 72"
    and inp: "InOffset + Length \<le> length Input" "length Input + 72 \<le> 2 ^ 64"
  shows "\<exists>s'. Keccak512_Update ext s Input InOffset Length = Some (Inr s') \<and> m_msgLength s' < 72"
proof (cases "Length = 0")
  case True
  have "Length \<le> size_t_sub (length Input) InOffset"
    using inp by (simp add: size_t_sub_le)
  with True len show ?thesis by (simp add: Keccak512_Update_def)
next
  case False
  have lt: "length Input < 2 ^ 64" using inp(2) by simp
  have chk: "Length \<le> size_t_sub (length Input) InOffset"
    using inp lt by (simp add: size_t_sub_le)
  have "\<exists>s3 InOffset3 Length3.
      Keccak512_Update_sequential ext s Input InOffset Length = Inr (s3, InOffset3, Length3)
      \<and> InOffset3 + Length3 \<le> length Input \<and> m_msgLength s3 + Length3 < 72
      \<and> length (m_msgBuffer s3) = length (m_msgBuffer s)"
  proof (cases "m_msgLength s \<noteq> 0 \<and> 72 \<le> size_t_add (m_msgLength s) Length")
    case True
    have sum: "size_t_add (m_msgLength s) Length = m_msgLength s + Length"
      using len inp by (intro size_t_add_lt) simp
    let ?R = "72 - m_msgLength s"
    have R: "size_t_sub 72 (m_msgLength s) = ?R"
      using len by (simp add: size_t_sub_le)
    have Rl: "?R \<le> Length" "?R \<noteq> 0" using True len by (auto simp add: sum)
    have "InOffset + ?R \<le> length Input" "m_msgLength s + ?R \<le> length (m_msgBuffer s)"
      using Rl inp buf len by simp_all
    from Copy_Inr [OF this]
    obtain b where b: "Copy Input InOffset (m_msgBuffer s) (m_msgLength s) ?R = Inr b"
      and lb: "length b = length (m_msgBuffer s)"
      by blast
    let ?s1 = "s\<lparr>m_msgBuffer := b,
                 m_dgtState := (m_dgtState s)[0 := Keccak512_Compress ext b 0 (m_dgtState s ! 0)],
                 m_msgLength := 0\<rparr>"
    have o1: "size_t_add InOffset ?R = InOffset + ?R"
      using Rl inp by (intro size_t_add_lt) simp
    have l1: "size_t_sub Length ?R = Length - ?R"
      using Rl inp lt by (intro size_t_sub_le) simp_all
    have "(InOffset + ?R) + (Length - ?R) < 2 ^ 64" using Rl inp by simp
    from Keccak512_Update_loop_returns [OF _ this, of "m_dgtState ?s1" ext Input] ne
    obtain ds' where
      l: "Keccak512_Update_loop ext Input (InOffset + ?R) (Length - ?R) (m_dgtState ?s1)
          = Inr (ds', InOffset + ?R + (Length - ?R - (Length - ?R) mod 72), (Length - ?R) mod 72)"
      by auto
    have first: "(if m_msgLength s \<noteq> 0 \<and> 72 \<le> size_t_add (m_msgLength s) Length
            then
              let RMDLEN = size_t_sub 72 (m_msgLength s) in
              ebind (if RMDLEN \<noteq> 0
                     then Copy Input InOffset (m_msgBuffer s) (m_msgLength s) RMDLEN
                     else Inr (m_msgBuffer s)) (\<lambda>buf.
              if m_dgtState s = [] then Inl OutOfRange
              else Inr (s\<lparr>m_msgBuffer := buf,
                          m_dgtState := (m_dgtState s)
                             [0 := Keccak512_Compress ext buf 0 (m_dgtState s ! 0)],
                          m_msgLength := 0\<rparr>,
                        size_t_add InOffset RMDLEN, size_t_sub Length RMDLEN))
            else Inr (s, InOffset, Length)) = Inr (?s1, InOffset + ?R, Length - ?R)"
      using True ne Rl by (simp add: Let_def R b o1 l1)
    have "Keccak512_Update_sequential ext s Input InOffset Length
        = Inr (?s1\<lparr>m_dgtState := ds'\<rparr>,
               InOffset + ?R + (Length - ?R - (Length - ?R) mod 72), (Length - ?R) mod 72)"
      unfolding Keccak512_Update_sequential_def first
      by (simp only: ebind_Inr prod.case l)
    moreover have "(Length - ?R) mod 72 \<le> Length - ?R" by (rule mod_less_eq_dividend)
    then have "InOffset + ?R + (Length - ?R - (Length - ?R) mod 72) + (Length - ?R) mod 72
        \<le> length Input"
      using Rl inp by simp
    moreover have "(Length - ?R) mod 72 < 72" by simp
    ultimately show ?thesis by (simp add: lb)
  next
    case False
    have sum: "size_t_add (m_msgLength s) Length = m_msgLength s + Length"
      using len inp by (intro size_t_add_lt) simp
    have "InOffset + Length < 2 ^ 64" using inp by simp
    from Keccak512_Update_loop_returns [OF ne this, of ext Input]
    obtain ds' where
      l: "Keccak512_Update_loop ext Input InOffset Length (m_dgtState s)
          = Inr (ds', InOffset + (Length - Length mod 72), Length mod 72)"
      by auto
    have e: "Keccak512_Update_sequential ext s Input InOffset Length
        = Inr (s\<lparr>m_dgtState := ds'\<rparr>, InOffset + (Length - Length mod 72), Length mod 72)"
      unfolding Keccak512_Update_sequential_def
      by (simp only: False if_False ebind_Inr prod.case l)
    have "Length mod 72 \<le> Length" by (rule mod_less_eq_dividend)
    then have i: "InOffset + (Length - Length mod 72) + Length mod 72 \<le> length Input"
      using inp by simp
    have "m_msgLength s + Length mod 72 < 72"
    proof (cases "m_msgLength s = 0")
      case True
      then show ?thesis by simp
    next
      case nz: False
      with False sum have "m_msgLength s + Length < 72" by simp
      then show ?thesis by simp
    qed
    with e i show ?thesis by simp
  qed
  then obtain s3 InOffset3 Length3 where
    u: "Keccak512_Update_sequential ext s Input InOffset Length = Inr (s3, InOffset3, Length3)"
    and i3: "InOffset3 + Length3 \<le> length Input"
    and m3: "m_msgLength s3 + Length3 < 72"
    and b3: "length (m_msgBuffer s3) = length (m_msgBuffer s)"
    by blast
  show ?thesis
  proof (cases "Length3 = 0")
    case True
    with False chk seq u m3 show ?thesis by (simp add: Keccak512_Update_def)
  next
    case nz: False
    have "m_msgLength s3 + Length3 \<le> length (m_msgBuffer s3)"
      using m3 b3 buf by simp
    from Copy_Inr [OF i3 this]
    obtain b where b: "Copy Input InOffset3 (m_msgBuffer s3) (m_msgLength s3) Length3 = Inr b"
      by blast
    have "size_t_add (m_msgLength s3) Length3 = m_msgLength s3 + Length3"
      using m3 by (intro size_t_add_lt) simp
    with False chk seq u m3 nz b show ?thesis by (simp add: Keccak512_Update_def)
  qed
qed

lemma Keccak512_Reset_loop_words:
  assumes "Keccak512_Reset_loop ext par [k..<n] p ds = Inr (p1, ds1)" and "n = length ds"
  shows "\<forall>i<n. k \<le> i \<longrightarrow> 20 < length (State_H (ds ! i))"
  using assms
proof (induction "n - k" arbitrary: k p ds)
  case 0
  then show ?case by simp
next
  case (Suc m)
  then have k: "k < n" and upt: "[k..<n] = k # [Suc k..<n]"
    by (simp_all add: upt_conv_Cons)
  from Suc.prems upt k obtain st where st: "Keccak512State_Reset (ds ! k) = Inr st"
    by (cases "Keccak512State_Reset (ds ! k)") auto
  then have w: "20 < length (State_H (ds ! k))"
    by (auto simp add: Keccak512State_Reset_def Let_def split: if_splits)
  let ?q = "if par then p\<lparr>NodeOffset := of_nat k\<rparr> else p"
  let ?v = "if par then Keccak512_Compress ext (ToBytes ext (p\<lparr>NodeOffset := of_nat k\<rparr>)) 0 st
            else st"
  have a: "Keccak512_Reset_loop ext par [Suc k..<n] ?q (ds[k := ?v]) = Inr (p1, ds1)"
    using Suc.prems(1) k st unfolding upt
    by (simp add: Suc.prems(2) Let_def split: if_splits)
  have b: "m = n - Suc k" using Suc.hyps(2) by simp
  have c: "n = length (ds[k := ?v])" using Suc.prems(2) by simp
  have ih: "\<forall>i<n. Suc k \<le> i \<longrightarrow> 20 < length (State_H (ds[k := ?v] ! i))"
    by (rule Suc.hyps(1) [OF b a c])
  show ?case
  proof (intro allI impI)
    fix i assume i: "i < n" and ki: "k \<le> i"
    show "20 < length (State_H (ds ! i))"
    proof (cases "i = k")
      case True
      with w show ?thesis by simp
    next
      case False
      with ih i ki show ?thesis by (auto simp add: nth_list_update split: if_splits)
    qed
  qed
qed

lemma Keccak512_fresh_words:
  assumes "Keccak512_Reset ext s0 = Inr s0" and "i < length (m_dgtState s0)"
  shows "20 < length (State_H (m_dgtState s0 ! i))"
proof -
  from Keccak512_Reset_Inr [OF assms(1)] obtain p1 ds1 where
    "Keccak512_Reset_loop ext (IsParallel (m_parallelProfile s0))
              [0..<length (m_dgtState s0)] (m_treeParams s0) (m_dgtState s0) = Inr (p1, ds1)"
    by blast
  from Keccak512_Reset_loop_words [OF this refl] assms(2) show ?thesis by simp
qed

lemma Keccak512_Finalize_returns:
  assumes ok: "keccak_ok ext"
    and fresh: "Keccak512_Reset ext s0 = Inr s0"
    and sh: "Keccak512_same_shape s0 s"
    and seq: "\<not> IsParallel (m_parallelProfile s0)"
    and ne: "m_dgtState s0 \<noteq> []"
    and buf: "72 \<le> length (m_msgBuffer s0)" "length (m_msgBuffer s0) < 2 ^ 64"
    and len: "m_msgLength s < 72"
    and out: "OutOffset + 64 \<le> length Output" "length Output < 2 ^ 64"
  shows "\<exists>d. Keccak512_Finalize ext s Output OutOffset = Inr (s0, d)"
proof -
  note st = Keccak512_same_shape_states [OF sh]
  from sh have f: "m_parallelProfile s = m_parallelProfile s0"
    "length (m_msgBuffer s) = length (m_msgBuffer s0)"
    by (simp_all add: Keccak512_same_shape_def)
  have ne': "m_dgtState s \<noteq> []" using ne st(1) by auto
  have w: "20 < length (State_H (m_dgtState s ! 0))"
    using Keccak512_fresh_words [OF fresh, of 0] ne st by simp
  have chk: "64 \<le> size_t_sub (length Output) OutOffset"
    using out by (simp add: size_t_sub_le)
  have sub: "size_t_sub (length (m_msgBuffer s)) (m_msgLength s)
      = length (m_msgBuffer s) - m_msgLength s"
    using len buf f by (intro size_t_sub_le) simp_all
  obtain buf1 where
    c: "Clear (m_msgBuffer s) (m_msgLength s) (length (m_msgBuffer s) - m_msgLength s) = Inr buf1"
    and l1: "length buf1 = length (m_msgBuffer s)"
    using len buf f by (simp add: Clear_def)
  have nl: "m_msgLength s \<noteq> length (m_msgBuffer s)" using len buf f by simp
  obtain buf2 st2 where
    h: "Keccak512_HashFinal ext buf1 0 (m_msgLength s) (m_dgtState s ! 0) = Inr (buf2, st2)"
    using len buf f l1 w ok by (simp add: Keccak512_HashFinal_def Let_def)
  have w2: "20 < length (State_H st2)"
    using Keccak512_HashFinal_lengths(2) [OF ok h] w by simp
  obtain d where d: "LeULL512ToBlock (State_H st2) 0 Output OutOffset = Inr d"
    using w2 out by (simp add: LeULL512ToBlock_def)
  let ?s1 = "s\<lparr>m_msgBuffer := buf2, m_dgtState := (m_dgtState s)[0 := st2]\<rparr>"
  have p: "Keccak512_Finalize_sequential ext s Output OutOffset = Inr (?s1, d)"
    unfolding Keccak512_Finalize_sequential_def
    using nl ne' by (simp add: sub c h d)
  from Keccak512_Finalize_sequential_shape [OF ok p] sh
  have "Keccak512_same_shape s0 ?s1" by (blast intro: Keccak512_same_shape_trans)
  from Keccak512_Reset_same_shape [OF this, of ext] fresh
  have r: "Keccak512_Reset ext ?s1 = Inr s0" by simp
  show ?thesis
    unfolding Keccak512_Finalize_def
    using chk seq by (simp add: f p r)
qed

lemma Keccak512_Compute_returns:
  assumes ok: "keccak_ok ext"
    and fresh: "Keccak512_Reset ext s0 = Inr s0"
    and seq: "\<not> IsParallel (m_parallelProfile s0)"
    and ne: "m_dgtState s0 \<noteq> []"
    and buf: "72 \<le> length (m_msgBuffer s0)" "length (m_msgBuffer s0) < 2 ^ 64"
    and y: "length y + 72 \<le> 2 ^ 64"
  shows "\<exists>d. Keccak512_Compute ext s0 y out = Some (Inr (s0, d))"
proof -
  have m0: "m_msgLength s0 < 72"
    using Keccak512_Reset_leaves(1) [OF fresh] by simp
  from Keccak512_Update_returns [OF seq ne buf(1) m0 _ y, of 0 "length y" ext]
  obtain s1 where u: "Keccak512_Update ext s0 y 0 (length y) = Some (Inr s1)"
    and m1: "m_msgLength s1 < 72"
    by auto
  note sh = Keccak512_Update_shape [OF ok u]
  from Keccak512_Finalize_returns [OF ok fresh sh seq ne buf m1, of 0 "vector_resize out 64"]
  obtain d where "Keccak512_Finalize ext s1 (vector_resize out 64) 0 = Inr (s0, d)"
    by auto
  with u show ?thesis by (simp add: Keccak512_Compute_def)
qed

subsection \<open>Keccak512: the constructors\<close>

lemma Keccak512_Reset_loop_returns:
  assumes ok: "keccak_ok ext"
  shows "\<forall>i\<in>set idx. i < length ds \<Longrightarrow> \<forall>i<length ds. 20 < length (State_H (ds ! i))
    \<Longrightarrow> \<exists>r. Keccak512_Reset_loop ext par idx p ds = Inr r"
proof (induction idx arbitrary: p ds)
  case Nil
  then show ?case by simp
next
  case (Cons i rest)
  from Cons.prems have i: "i < length ds" and w: "20 < length (State_H (ds ! i))" by simp_all
  let ?st = "\<lparr>State_H = (replicate (length (State_H (ds ! i))) 0)[1 := MAX_ULL, 2 := MAX_ULL,
              8 := MAX_ULL, 12 := MAX_ULL, 17 := MAX_ULL, 20 := MAX_ULL], State_T = 0\<rparr>"
  have st: "Keccak512State_Reset (ds ! i) = Inr ?st"
    using w by (simp add: Keccak512State_Reset_def Let_def)
  have step: "\<And>v q. length (State_H v) = length (State_H (ds ! i))
      \<Longrightarrow> \<exists>r. Keccak512_Reset_loop ext par rest q (ds[i := v]) = Inr r"
  proof -
    fix v :: Keccak512State and q
    assume l: "length (State_H v) = length (State_H (ds ! i))"
    show "\<exists>r. Keccak512_Reset_loop ext par rest q (ds[i := v]) = Inr r"
    proof (rule Cons.IH)
      show "\<forall>j\<in>set rest. j < length (ds[i := v])" using Cons.prems(1) by simp
      show "\<forall>j<length (ds[i := v]). 20 < length (State_H (ds[i := v] ! j))"
        using Cons.prems(2) l w i by (auto simp add: nth_list_update)
    qed
  qed
  show ?case
  proof (cases par)
    case True
    from step [of "Keccak512_Compress ext (ToBytes ext (p\<lparr>NodeOffset := of_nat i\<rparr>)) 0 ?st"
        "p\<lparr>NodeOffset := of_nat i\<rparr>"] ok
    show ?thesis using True i st by (simp add: Let_def)
  next
    case False
    from step [of ?st p] show ?thesis using False i st by simp
  qed
qed

lemma Keccak512_Reset_returns:
  assumes ok: "keccak_ok ext"
    and w: "\<forall>i<length (m_dgtState s). 20 < length (State_H (m_dgtState s ! i))"
  shows "\<exists>r. Keccak512_Reset ext s = Inr r
           \<and> length (m_msgBuffer r) = length (m_msgBuffer s)
           \<and> length (m_dgtState r) = length (m_dgtState s)
           \<and> m_parallelProfile r = m_parallelProfile s"
proof -
  from Keccak512_Reset_loop_returns [OF ok _ w, of "[0..<length (m_dgtState s)]"
      "IsParallel (m_parallelProfile s)" "m_treeParams s"]
  obtain p1 ds1 where
    l: "Keccak512_Reset_loop ext (IsParallel (m_parallelProfile s))
          [0..<length (m_dgtState s)] (m_treeParams s) (m_dgtState s) = Inr (p1, ds1)"
    by auto
  from Keccak512_Reset_loop_result [OF ok l] have "length ds1 = length (m_dgtState s)" by simp
  then show ?thesis by (simp add: Keccak512_Reset_def l)
qed

lemma Keccak512_ctor_returns:
  assumes ok: "keccak_ok ext"
  shows "\<exists>s0. Keccak512_ctor ext params profile Parallel = Inr s0
           \<and> Keccak512_Reset ext s0 = Inr s0
           \<and> length (m_msgBuffer s0) = (if Parallel then 8 * 72 else 72)
           \<and> length (m_dgtState s0) = (if Parallel then 8 else 1)
           \<and> m_parallelProfile s0
               = (if IsParallel profile then profile\<lparr>IsParallel := Parallel\<rparr> else profile)"
proof -
  obtain st where st: "Keccak512State_ctor = Inr st" and l: "length (State_H st) = 25"
    by (simp add: Keccak512State_ctor_def Keccak512State_Reset_def Let_def)
  let ?s = "\<lparr>m_treeParams = params,
        m_dgtState = replicate (if Parallel then 8 else 1) st,
        m_isDestroyedK = False,
        m_msgBuffer = replicate (if Parallel then 8 * 72 else 72) 0,
        m_msgLength = 0,
        m_parallelProfile =
          (if IsParallel profile then profile\<lparr>IsParallel := Parallel\<rparr> else profile)\<rparr>"
  have "\<forall>i<length (m_dgtState ?s). 20 < length (State_H (m_dgtState ?s ! i))"
    using l by simp
  from Keccak512_Reset_returns [OF ok this] obtain r where
    r: "Keccak512_Reset ext ?s = Inr r"
    and f: "length (m_msgBuffer r) = length (m_msgBuffer ?s)"
      "length (m_dgtState r) = length (m_dgtState ?s)"
      "m_parallelProfile r = m_parallelProfile ?s"
    by blast
  have c: "Keccak512_ctor ext params profile Parallel = Inr r"
    unfolding Keccak512_ctor_def by (simp only: st ebind_Inr r)
  from Keccak512_Reset_idempotent [OF ok r] c f show ?thesis by simp
qed

lemma example_keccak_ext_ok: "keccak_ok example_keccak_ext"
  by (simp add: keccak_ok_def example_keccak_ext_def)

subsection \<open>Keccak512: the instance after Finalize\<close>

text \<open>
  C10. Let \<open>s0\<close> be an instance as \<open>Reset\<close> leaves it (one that \<open>Reset\<close> maps to itself:
  both constructors end with \<open>Reset\<close>), sequential or parallel. After any number of
  \<open>Update\<close> calls that return and a \<open>Finalize\<close> that returns, the instance is \<open>s0\<close>
  again: the message length is zero, the buffer holds zero bytes, and leaf state \<open>i\<close> is
  the initial state, in parallel mode with the tree parameters of node offset \<open>i\<close>
  absorbed. So \<open>Compute\<close> (\<open>Update\<close> of \<open>y\<close>, then \<open>Finalize\<close>) gives on it what it
  gives on \<open>s0\<close>; on a sequential instance it returns a digest and leaves \<open>s0\<close> once
  more.
\<close>

theorem C10_Finalize_leaves_reset_state:
  assumes ok: "keccak_ok ext"
    and fresh: "Keccak512_Reset ext s0 = Inr s0"
    and upd: "Keccak512_Updates ext s0 xs = Some (Inr s1)"
    and fin: "Keccak512_Finalize ext s1 Output OutOffset = Inr (s2, dx)"
  shows "s2 = s0
    \<and> m_msgLength s2 = 0
    \<and> m_msgBuffer s2 = replicate (length (m_msgBuffer s1)) 0
    \<and> length (m_dgtState s2) = length (m_dgtState s1)
    \<and> (\<forall>i<length (m_dgtState s1).
          m_dgtState s2 ! i
          = spec_leaf_state ext (IsParallel (m_parallelProfile s1)) (m_treeParams s1) i
              (length (State_H (m_dgtState s1 ! i))))
    \<and> Keccak512_Compute ext s2 y out = Keccak512_Compute ext s0 y out
    \<and> (\<not> IsParallel (m_parallelProfile s0) \<and> m_dgtState s0 \<noteq> []
        \<and> 72 \<le> length (m_msgBuffer s0) \<and> length (m_msgBuffer s0) < 2 ^ 64
        \<and> length y + 72 \<le> 2 ^ 64
       \<longrightarrow> (\<exists>dy. Keccak512_Compute ext s2 y out = Some (Inr (s0, dy))))"
proof -
  have sh: "Keccak512_same_shape s0 s1"
    by (rule Keccak512_Updates_shape [OF ok upd])
  have eq: "s2 = s0"
    by (rule Keccak512_Finalize_fresh [OF ok fresh sh fin])
  from Keccak512_Finalize_Inr [OF ok fin] obtain s1' where
    sh1: "Keccak512_same_shape s1 s1'" and reset: "Keccak512_Reset ext s1' = Inr s2"
    by blast
  note st = Keccak512_same_shape_states [OF sh1]
  from sh1 have f: "m_treeParams s1' = m_treeParams s1"
    "m_parallelProfile s1' = m_parallelProfile s1"
    "length (m_msgBuffer s1') = length (m_msgBuffer s1)"
    by (simp_all add: Keccak512_same_shape_def)
  note lv = Keccak512_Reset_leaves [OF reset]
  have a: "m_msgLength s2 = 0" by (rule lv(1))
  have b: "m_msgBuffer s2 = replicate (length (m_msgBuffer s1)) 0"
    using lv(2) f by simp
  have c: "length (m_dgtState s2) = length (m_dgtState s1)"
    using lv(3) st(1) by simp
  have d: "\<forall>i<length (m_dgtState s1).
          m_dgtState s2 ! i
          = spec_leaf_state ext (IsParallel (m_parallelProfile s1)) (m_treeParams s1) i
              (length (State_H (m_dgtState s1 ! i)))"
    using lv(4) st f by simp
  have e: "Keccak512_Compute ext s2 y out = Keccak512_Compute ext s0 y out"
    by (simp only: eq)
  have g: "\<not> IsParallel (m_parallelProfile s0) \<and> m_dgtState s0 \<noteq> []
        \<and> 72 \<le> length (m_msgBuffer s0) \<and> length (m_msgBuffer s0) < 2 ^ 64
        \<and> length y + 72 \<le> 2 ^ 64
       \<longrightarrow> (\<exists>dy. Keccak512_Compute ext s2 y out = Some (Inr (s0, dy)))"
  proof
    assume h: "\<not> IsParallel (m_parallelProfile s0) \<and> m_dgtState s0 \<noteq> []
        \<and> 72 \<le> length (m_msgBuffer s0) \<and> length (m_msgBuffer s0) < 2 ^ 64
        \<and> length y + 72 \<le> 2 ^ 64"
    have "\<exists>dy. Keccak512_Compute ext s0 y out = Some (Inr (s0, dy))"
      by (rule Keccak512_Compute_returns [OF ok fresh]) (use h in simp_all)
    then show "\<exists>dy. Keccak512_Compute ext s2 y out = Some (Inr (s0, dy))"
      by (simp only: eq)
  qed
  from eq a b c d e g show ?thesis by blast
qed

theorem C10_Finalize_leaves_reset_state_witness:
  "\<exists>s0 s1 dx dy.
     Keccak512_ctor example_keccak_ext example_params example_profile False = Inr s0
   \<and> Keccak512_Updates example_keccak_ext s0 [([1, 2, 3], 0, 3)] = Some (Inr s1)
   \<and> Keccak512_Finalize example_keccak_ext s1 (replicate 64 0) 0 = Inr (s0, dx)
   \<and> Keccak512_Compute example_keccak_ext s0 [4, 5] [] = Some (Inr (s0, dy))"
proof -
  note ok = example_keccak_ext_ok
  from Keccak512_ctor_returns [OF ok, of example_params example_profile False]
  obtain s0 where
    c: "Keccak512_ctor example_keccak_ext example_params example_profile False = Inr s0"
    and fresh: "Keccak512_Reset example_keccak_ext s0 = Inr s0"
    and lb: "length (m_msgBuffer s0) = 72"
    and ld: "length (m_dgtState s0) = 1"
    and pr: "m_parallelProfile s0 = example_profile"
    by (auto simp add: example_profile_def)
  have seq: "\<not> IsParallel (m_parallelProfile s0)" by (simp add: pr example_profile_def)
  have ne: "m_dgtState s0 \<noteq> []" using ld by auto
  have m0: "m_msgLength s0 < 72" using Keccak512_Reset_leaves(1) [OF fresh] by simp
  from Keccak512_Update_returns [OF seq ne _ m0, of 0 3 "[1, 2, 3]" example_keccak_ext] lb
  obtain s1 where
    u: "Keccak512_Update example_keccak_ext s0 [1, 2, 3] 0 3 = Some (Inr s1)"
    and m1: "m_msgLength s1 < 72"
    by auto
  have us: "Keccak512_Updates example_keccak_ext s0 [([1, 2, 3], 0, 3)] = Some (Inr s1)"
    by (simp add: u)
  note sh = Keccak512_Update_shape [OF ok u]
  from Keccak512_Finalize_returns [OF ok fresh sh seq ne _ _ m1, of 0 "replicate 64 0"] lb
  obtain dx where
    f: "Keccak512_Finalize example_keccak_ext s1 (replicate 64 0) 0 = Inr (s0, dx)"
    by auto
  from C10_Finalize_leaves_reset_state [OF ok fresh us f, of "[4, 5]" "[]"] seq ne lb
  obtain dy where "Keccak512_Compute example_keccak_ext s0 [4, 5] [] = Some (Inr (s0, dy))"
    by auto
  with c us f show ?thesis by blast
qed

subsection \<open>Keccak512::ParallelMaxDegree and the processor count\<close>

text \<open>
  C7. The specification (and the documentation of the setter in Keccak512.h: "Thread count must be
  an even number, and not exceed the number of processor cores") wants every degree above
  the processor count refused. \<open>Keccak512::ParallelMaxDegree\<close> throws its
  \<open>CryptoDigestException\<close> exactly for 0, for degrees above 254 and for odd degrees; the
  processor count is never read. On a constructed instance whose profile reports 4 cores
  the degree 16 is accepted: the call returns, with the profile that \<open>SetMaxDegree\<close>
  gives for 16. The sibling setter of Salsa20 (and of GCM) refuses it.
\<close>

theorem C7_ParallelMaxDegree_ignores_processor_count:
  "(Keccak512_ParallelMaxDegree ext s Degree = Inl CryptoDigestException)
     = (Degree = 0 \<or> 254 < Degree \<or> Degree mod 2 \<noteq> 0)
   \<and> (keccak_ok ext \<and> Keccak512_ctor ext params profile Parallel = Inr s0
        \<and> ProcessorCount (m_parallelProfile s0) = 4
      \<longrightarrow> (\<exists>s'. Keccak512_ParallelMaxDegree ext s0 16 = Inr s'
               \<and> m_parallelProfile s' = SetMaxDegree ext (m_parallelProfile s0) 16))
   \<and> Salsa20_ParallelMaxDegree (SetMaxDegree ext)
        (t\<lparr>m_parallelProfileS := (m_parallelProfileS t)\<lparr>ProcessorCount := 4\<rparr>\<rparr>) 16
       = Inl CryptoSymmetricCipherException"
proof (intro conjI impI)
  show "(Keccak512_ParallelMaxDegree ext s Degree = Inl CryptoDigestException)
     = (Degree = 0 \<or> 254 < Degree \<or> Degree mod 2 \<noteq> 0)"
    by (auto simp add: Keccak512_ParallelMaxDegree_def dest: Keccak512_Reset_error)
  show "Salsa20_ParallelMaxDegree (SetMaxDegree ext)
        (t\<lparr>m_parallelProfileS := (m_parallelProfileS t)\<lparr>ProcessorCount := 4\<rparr>\<rparr>) 16
       = Inl CryptoSymmetricCipherException"
    by (simp add: Salsa20_ParallelMaxDegree_def)
next
  assume a: "keccak_ok ext \<and> Keccak512_ctor ext params profile Parallel = Inr s0
        \<and> ProcessorCount (m_parallelProfile s0) = 4"
  then have ok: "keccak_ok ext" and c: "Keccak512_ctor ext params profile Parallel = Inr s0"
    by simp_all
  note fresh = Keccak512_ctor_fresh [OF ok c]
  let ?s = "s0\<lparr>m_parallelProfile := SetMaxDegree ext (m_parallelProfile s0) 16\<rparr>"
  have "\<forall>i<length (m_dgtState ?s). 20 < length (State_H (m_dgtState ?s ! i))"
    using Keccak512_fresh_words [OF fresh] by simp
  from Keccak512_Reset_returns [OF ok this] obtain r where
    "Keccak512_Reset ext ?s = Inr r" "m_parallelProfile r = m_parallelProfile ?s"
    by blast
  then show "\<exists>s'. Keccak512_ParallelMaxDegree ext s0 16 = Inr s'
               \<and> m_parallelProfile s' = SetMaxDegree ext (m_parallelProfile s0) 16"
    by (simp add: Keccak512_ParallelMaxDegree_def)
qed

theorem C7_ParallelMaxDegree_ignores_processor_count_witness:
  "\<exists>s0 s'.
     Keccak512_ctor example_keccak_ext example_params
        (example_profile\<lparr>IsParallel := True, ProcessorCount := 4\<rparr>) True = Inr s0
   \<and> ProcessorCount (m_parallelProfile s0) = 4
   \<and> Keccak512_ParallelMaxDegree example_keccak_ext s0 16 = Inr s'
   \<and> ParallelMaxDegree (m_parallelProfile s') = 16"
proof -
  note ok = example_keccak_ext_ok
  from Keccak512_ctor_returns [OF ok, of example_params
      "example_profile\<lparr>IsParallel := True, ProcessorCount := 4\<rparr>" True]
  obtain s0 where
    c: "Keccak512_ctor example_keccak_ext example_params
        (example_profile\<lparr>IsParallel := True, ProcessorCount := 4\<rparr>) True = Inr s0"
    and pr: "m_parallelProfile s0 = example_profile\<lparr>IsParallel := True, ProcessorCount := 4\<rparr>"
    by auto
  have p4: "ProcessorCount (m_parallelProfile s0) = 4" by (simp add: pr)
  from C7_ParallelMaxDegree_ignores_processor_count
    [where ext = example_keccak_ext and ?s0.0 = s0, THEN conjunct2, THEN conjunct1] ok c p4
  obtain s' where "Keccak512_ParallelMaxDegree example_keccak_ext s0 16 = Inr s'"
    "m_parallelProfile s' = SetMaxDegree example_keccak_ext (m_parallelProfile s0) 16"
    by blast
  then have "Keccak512_ParallelMaxDegree example_keccak_ext s0 16 = Inr s'"
    "ParallelMaxDegree (m_parallelProfile s') = 16"
    by (simp_all add: example_keccak_ext_def)
  with c p4 show ?thesis by blast
qed

end
